theory Spec2Isabelle
  imports Main "HOL-Library.Word"
begin

unbundle bit_operations_syntax

section \<open>JavaScript arrays of 32-bit words\<close>

text \<open>
  The word arrays of the source are JavaScript arrays whose elements are only ever read
  through bitwise operators, which coerce to 32 bits. An element is a \<open>32 word\<close>; a
  hole (an index never written, or one past the end) reads as \<open>undefined\<close>, which every
  bitwise operator takes as 0. Writing past the end extends the array, leaving holes
  between the old end and the written index.
\<close>

definition js_get :: "32 word list \<Rightarrow> nat \<Rightarrow> 32 word" where
  "js_get ws i = (if i < length ws then ws ! i else 0)"

definition js_set :: "32 word list \<Rightarrow> nat \<Rightarrow> 32 word \<Rightarrow> 32 word list" where
  "js_set ws i v =
     (if i < length ws then ws[i := v] else ws @ replicate (i - length ws) 0 @ [v])"

text \<open>\<open>x >>> k\<close>: the operand is first taken modulo \<open>2 ^ 32\<close>.\<close>

definition ushr :: "nat \<Rightarrow> nat \<Rightarrow> nat" where
  "ushr x k = (x mod 2 ^ 32) div 2 ^ k"

text \<open>\<open>x | 0\<close> on a non-negative whole number: reduction to a signed 32-bit value.\<close>

definition toInt32 :: "nat \<Rightarrow> int" where
  "toInt32 x = (let m = x mod 2 ^ 32 in if m < 2 ^ 31 then int m else int m - 2 ^ 32)"

section \<open>WordArray\<close>

text \<open>
  \<open>WordArray.js\<close> is not among the sources. The record has the two fields the sources
  read and write (\<open>words\<close>, \<open>sigBytes\<close>).
\<close>

record WordArray =
  words :: "32 word list"
  sigBytes :: nat

text \<open>
  Modelled from the spec: the constructor of the missing \<open>WordArray\<close> class
  ("construct from a word list + explicit byte length"). Called without a byte length it
  covers all the words given (the digest of 4 words is "exactly 16 bytes"); called
  without words it is empty.
\<close>

definition WordArray_new :: "32 word list option \<Rightarrow> nat option \<Rightarrow> WordArray" where
  "WordArray_new ws n =
     (let w = (case ws of None \<Rightarrow> [] | Some l \<Rightarrow> l)
      in \<lparr>words = w, sigBytes = (case n of None \<Rightarrow> 4 * length w | Some k \<Rightarrow> k)\<rparr>)"

text \<open>
  Modelled from the spec: byte \<open>i\<close> of a word sequence ("Byte i (big-endian within each
  word) lives in word i >> 2, bit-shifted by 24 - 8*(i mod 4)"), the significant bytes of
  a sequence, and the words that hold a given list of bytes in that layout, the unused
  bytes of the last word being zero.
\<close>

definition byteAt :: "32 word list \<Rightarrow> nat \<Rightarrow> 8 word" where
  "byteAt ws i = ucast (drop_bit (24 - 8 * (i mod 4)) (js_get ws (i div 4)))"

definition bytesOf :: "WordArray \<Rightarrow> 8 word list" where
  "bytesOf w = map (byteAt (words w)) [0..<sigBytes w]"

definition fromBytes :: "8 word \<Rightarrow> 8 word \<Rightarrow> 8 word \<Rightarrow> 8 word \<Rightarrow> 32 word" where
  "fromBytes b0 b1 b2 b3 =
     push_bit 24 (ucast b0) OR push_bit 16 (ucast b1) OR push_bit 8 (ucast b2) OR ucast b3"

definition byteOrZero :: "8 word list \<Rightarrow> nat \<Rightarrow> 8 word" where
  "byteOrZero bs i = (if i < length bs then bs ! i else 0)"

definition wordOfBytes :: "8 word list \<Rightarrow> nat \<Rightarrow> 32 word" where
  "wordOfBytes bs k =
     fromBytes (byteOrZero bs (4 * k)) (byteOrZero bs (4 * k + 1))
       (byteOrZero bs (4 * k + 2)) (byteOrZero bs (4 * k + 3))"

definition packBytes :: "8 word list \<Rightarrow> 32 word list" where
  "packBytes bs = map (wordOfBytes bs) [0..<(length bs + 3) div 4]"

text \<open>
  Modelled from the spec: \<open>WordArray.concat\<close>, missing from the sources ("appending
  another sequence with correct partial-word merge semantics", "extending sigBytes
  precisely (merging a partial last word with the new sequence's leading bits when the
  existing buffer's sigBytes is not a multiple of 4)"). The result holds the significant
  bytes of the receiver followed by those of the argument, packed big-endian, in exactly
  as many words as they need.
\<close>

definition concat_wa :: "WordArray \<Rightarrow> WordArray \<Rightarrow> WordArray" where
  "concat_wa this that =
     \<lparr>words = packBytes (bytesOf this @ bytesOf that),
      sigBytes = sigBytes this + sigBytes that\<rparr>"

section \<open>MD5Utils\<close>

text \<open>
  Modelled from the spec: the four round functions of the missing \<open>MD5Utils\<close> module
  ("Each round computes a' = b + rotate_left(a + mix(b,c,d) + message_word +
  T[round_index], shift_amount)", "All arithmetic is modulo 2^32"), with the mixing
  functions F, G, H, I as the spec gives them.
\<close>

definition FF :: "32 word \<Rightarrow> 32 word \<Rightarrow> 32 word \<Rightarrow> 32 word \<Rightarrow> 32 word \<Rightarrow> nat \<Rightarrow> 32 word \<Rightarrow> 32 word" where
  "FF a b c d x s t = b + word_rotl s (a + ((b AND c) OR (NOT b AND d)) + x + t)"

definition GG :: "32 word \<Rightarrow> 32 word \<Rightarrow> 32 word \<Rightarrow> 32 word \<Rightarrow> 32 word \<Rightarrow> nat \<Rightarrow> 32 word \<Rightarrow> 32 word" where
  "GG a b c d x s t = b + word_rotl s (a + ((b AND d) OR (c AND NOT d)) + x + t)"

definition HH :: "32 word \<Rightarrow> 32 word \<Rightarrow> 32 word \<Rightarrow> 32 word \<Rightarrow> 32 word \<Rightarrow> nat \<Rightarrow> 32 word \<Rightarrow> 32 word" where
  "HH a b c d x s t = b + word_rotl s (a + (b XOR c XOR d) + x + t)"

definition II :: "32 word \<Rightarrow> 32 word \<Rightarrow> 32 word \<Rightarrow> 32 word \<Rightarrow> 32 word \<Rightarrow> nat \<Rightarrow> 32 word \<Rightarrow> 32 word" where
  "II a b c d x s t = b + word_rotl s (a + (c XOR (b OR NOT d)) + x + t)"

section \<open>MD5Hasher.js\<close>

text \<open>
  The constants table. The source fills it when the module is loaded, with
  \<open>(Math.abs(Math.sin(i + 1)) * 0x100000000) | 0\<close> for \<open>i\<close> from 0 to 63: a
  floating-point computation, which this embedding does not model. \<open>T\<close> lists the 64
  words that computation leaves on IEEE-754 doubles.
\<close>

definition T :: "32 word list" where
  "T = [0xd76aa478, 0xe8c7b756, 0x242070db, 0xc1bdceee,
        0xf57c0faf, 0x4787c62a, 0xa8304613, 0xfd469501,
        0x698098d8, 0x8b44f7af, 0xffff5bb1, 0x895cd7be,
        0x6b901122, 0xfd987193, 0xa679438e, 0x49b40821,
        0xf61e2562, 0xc040b340, 0x265e5a51, 0xe9b6c7aa,
        0xd62f105d, 0x02441453, 0xd8a1e681, 0xe7d3fbc8,
        0x21e1cde6, 0xc33707d6, 0xf4d50d87, 0x455a14ed,
        0xa9e3e905, 0xfcefa3f8, 0x676f02d9, 0x8d2a4c8a,
        0xfffa3942, 0x8771f681, 0x6d9d6122, 0xfde5380c,
        0xa4beea44, 0x4bdecfa9, 0xf6bb4b60, 0xbebfbc70,
        0x289b7ec6, 0xeaa127fa, 0xd4ef3085, 0x04881d05,
        0xd9d4d039, 0xe6db99e5, 0x1fa27cf8, 0xc4ac5665,
        0xf4292244, 0x432aff97, 0xab9423a7, 0xfc93a039,
        0x655b59c3, 0x8f0ccc92, 0xffeff47d, 0x85845dd1,
        0x6fa87e4f, 0xfe2ce6e0, 0xa3014314, 0x4e0811a1,
        0xf7537e82, 0xbd3af235, 0x2ad7d2bb, 0xeb86d391]"

text \<open>\<open>doReset\<close>: the initial value of the field \<open>_hash\<close>.\<close>

definition doReset :: WordArray where
  "doReset = WordArray_new (Some [0x67452301, 0xefcdab89, 0x98badcfe, 0x10325476]) None"

text \<open>The byte swap that \<open>doProcessBlock\<close> and \<open>doFinalize\<close> both spell out.\<close>

definition swapEndian :: "32 word \<Rightarrow> 32 word" where
  "swapEndian x =
     (((push_bit 8 x OR drop_bit 24 x) AND 0x00ff00ff) OR
      ((push_bit 24 x OR drop_bit 8 x) AND 0xff00ff00))"

text \<open>
  The loops \<open>for (let i = 0; i < n; i++) A[p + i] = swap(A[p + i])\<close> of
  \<open>doProcessBlock\<close> (\<open>n = 16\<close>, \<open>p = offset\<close>) and \<open>doFinalize\<close> (\<open>n = 4\<close>,
  \<open>p = 0\<close>); the first argument counts the iterations left.
\<close>

fun swapWords :: "nat \<Rightarrow> nat \<Rightarrow> 32 word list \<Rightarrow> 32 word list" where
  "swapWords 0 p A = A"
| "swapWords (Suc n) p A = swapWords n (Suc p) (js_set A p (swapEndian (js_get A p)))"

text \<open>
  The 64 steps of \<open>doProcessBlock\<close> on the working variables, line by line; \<open>X k\<close> is
  the word \<open>M[offset + k]\<close> after the swap.
\<close>

definition computation ::
  "32 word \<times> 32 word \<times> 32 word \<times> 32 word \<Rightarrow> (nat \<Rightarrow> 32 word) \<Rightarrow>
   32 word \<times> 32 word \<times> 32 word \<times> 32 word" where
  "computation abcd X =
     (let (a, b, c, d) = abcd;
          M_offset_0 = X 0;
          M_offset_1 = X 1;
          M_offset_2 = X 2;
          M_offset_3 = X 3;
          M_offset_4 = X 4;
          M_offset_5 = X 5;
          M_offset_6 = X 6;
          M_offset_7 = X 7;
          M_offset_8 = X 8;
          M_offset_9 = X 9;
          M_offset_10 = X 10;
          M_offset_11 = X 11;
          M_offset_12 = X 12;
          M_offset_13 = X 13;
          M_offset_14 = X 14;
          M_offset_15 = X 15;
          a = FF a b c d M_offset_0 7 (T ! 0);
          d = FF d a b c M_offset_1 12 (T ! 1);
          c = FF c d a b M_offset_2 17 (T ! 2);
          b = FF b c d a M_offset_3 22 (T ! 3);
          a = FF a b c d M_offset_4 7 (T ! 4);
          d = FF d a b c M_offset_5 12 (T ! 5);
          c = FF c d a b M_offset_6 17 (T ! 6);
          b = FF b c d a M_offset_7 22 (T ! 7);
          a = FF a b c d M_offset_8 7 (T ! 8);
          d = FF d a b c M_offset_9 12 (T ! 9);
          c = FF c d a b M_offset_10 17 (T ! 10);
          b = FF b c d a M_offset_11 22 (T ! 11);
          a = FF a b c d M_offset_12 7 (T ! 12);
          d = FF d a b c M_offset_13 12 (T ! 13);
          c = FF c d a b M_offset_14 17 (T ! 14);
          b = FF b c d a M_offset_15 22 (T ! 15);
          a = GG a b c d M_offset_1 5 (T ! 16);
          d = GG d a b c M_offset_6 9 (T ! 17);
          c = GG c d a b M_offset_11 14 (T ! 18);
          b = GG b c d a M_offset_0 20 (T ! 19);
          a = GG a b c d M_offset_5 5 (T ! 20);
          d = GG d a b c M_offset_10 9 (T ! 21);
          c = GG c d a b M_offset_15 14 (T ! 22);
          b = GG b c d a M_offset_4 20 (T ! 23);
          a = GG a b c d M_offset_9 5 (T ! 24);
          d = GG d a b c M_offset_14 9 (T ! 25);
          c = GG c d a b M_offset_3 14 (T ! 26);
          b = GG b c d a M_offset_8 20 (T ! 27);
          a = GG a b c d M_offset_13 5 (T ! 28);
          d = GG d a b c M_offset_2 9 (T ! 29);
          c = GG c d a b M_offset_7 14 (T ! 30);
          b = GG b c d a M_offset_12 20 (T ! 31);
          a = HH a b c d M_offset_5 4 (T ! 32);
          d = HH d a b c M_offset_8 11 (T ! 33);
          c = HH c d a b M_offset_11 16 (T ! 34);
          b = HH b c d a M_offset_14 23 (T ! 35);
          a = HH a b c d M_offset_1 4 (T ! 36);
          d = HH d a b c M_offset_4 11 (T ! 37);
          c = HH c d a b M_offset_7 16 (T ! 38);
          b = HH b c d a M_offset_10 23 (T ! 39);
          a = HH a b c d M_offset_13 4 (T ! 40);
          d = HH d a b c M_offset_0 11 (T ! 41);
          c = HH c d a b M_offset_3 16 (T ! 42);
          b = HH b c d a M_offset_6 23 (T ! 43);
          a = HH a b c d M_offset_9 4 (T ! 44);
          d = HH d a b c M_offset_12 11 (T ! 45);
          c = HH c d a b M_offset_15 16 (T ! 46);
          b = HH b c d a M_offset_2 23 (T ! 47);
          a = II a b c d M_offset_0 6 (T ! 48);
          d = II d a b c M_offset_7 10 (T ! 49);
          c = II c d a b M_offset_14 15 (T ! 50);
          b = II b c d a M_offset_5 21 (T ! 51);
          a = II a b c d M_offset_12 6 (T ! 52);
          d = II d a b c M_offset_3 10 (T ! 53);
          c = II c d a b M_offset_10 15 (T ! 54);
          b = II b c d a M_offset_1 21 (T ! 55);
          a = II a b c d M_offset_8 6 (T ! 56);
          d = II d a b c M_offset_15 10 (T ! 57);
          c = II c d a b M_offset_6 15 (T ! 58);
          b = II b c d a M_offset_13 21 (T ! 59);
          a = II a b c d M_offset_4 6 (T ! 60);
          d = II d a b c M_offset_11 10 (T ! 61);
          c = II c d a b M_offset_2 15 (T ! 62);
          b = II b c d a M_offset_9 21 (T ! 63)
      in (a, b, c, d))"

definition doProcessBlock ::
  "32 word list \<Rightarrow> 32 word list \<Rightarrow> nat \<Rightarrow> 32 word list \<times> 32 word list" where
  "doProcessBlock H M offset =
     (let M = swapWords 16 offset M;
          (a, b, c, d) =
             computation (js_get H 0, js_get H 1, js_get H 2, js_get H 3)
               (\<lambda>k. js_get M (offset + k));
          H = js_set H 0 (js_get H 0 + a);
          H = js_set H 1 (js_get H 1 + b);
          H = js_set H 2 (js_get H 2 + c);
          H = js_set H 3 (js_get H 3 + d)
      in (H, M))"

section \<open>The buffered block algorithm\<close>

record BufferedBlockAlgorithm =
  blockSize :: nat
  minBufferSize :: nat
  data :: WordArray
  nDataBytes :: nat

text \<open>
  The constructor sets \<open>blockSize\<close> and \<open>_minBufferSize\<close> only; \<open>_data\<close> and
  \<open>_nDataBytes\<close> are unset until \<open>reset\<close>, which the constructor of \<open>Hasher\<close> calls
  before anything reads them. The record holds the values of \<open>reset\<close> from the start.
\<close>

definition BufferedBlockAlgorithm_new :: "nat \<Rightarrow> BufferedBlockAlgorithm" where
  "BufferedBlockAlgorithm_new bs =
     \<lparr>blockSize = bs, minBufferSize = 0, data = WordArray_new None None, nDataBytes = 0\<rparr>"

definition buffer_reset :: "BufferedBlockAlgorithm \<Rightarrow> BufferedBlockAlgorithm" where
  "buffer_reset b = b\<lparr>data := WordArray_new None None, nDataBytes := 0\<rparr>"

text \<open>
  \<open>_parse\<close>: the loop over the characters, \<open>i\<close> the index of the next one. A
  \<open>latin1Str\<close> is a \<open>string\<close>, whose characters are the codes 0 to 255.
\<close>

fun parse_loop :: "string \<Rightarrow> nat \<Rightarrow> 32 word list \<Rightarrow> 32 word list" where
  "parse_loop [] i ws = ws"
| "parse_loop (c # cs) i ws =
     parse_loop cs (i + 1)
       (js_set ws (ushr i 2)
          (js_get ws (ushr i 2) OR push_bit (24 - (i mod 4) * 8) (of_char c AND 0xff)))"

definition parse :: "string \<Rightarrow> WordArray" where
  "parse latin1Str = WordArray_new (Some (parse_loop latin1Str 0 [])) (Some (length latin1Str))"

text \<open>
  What \<open>append\<close>, \<open>update\<close> and \<open>finalize\<close> are given: a string or a WordArray. The
  encoder \<open>unescape(encodeURIComponent(data))\<close> belongs to the JavaScript runtime; a
  string is given here as the bytes that encoder yields (the string itself when it is
  ASCII).
\<close>

datatype message = Str string | WA WordArray

definition append_data :: "message \<Rightarrow> BufferedBlockAlgorithm \<Rightarrow> BufferedBlockAlgorithm" where
  "append_data msg b =
     (let d = (case msg of Str s \<Rightarrow> parse s | WA w \<Rightarrow> w)
      in b\<lparr>data := concat_wa (data b) d, nDataBytes := nDataBytes b + sigBytes d\<rparr>)"

section \<open>Hasher.js\<close>

text \<open>
  A hasher owns one buffer, which its \<open>MD5\<close> object shares, and the field \<open>_hash\<close> of
  that object.
\<close>

record Hasher =
  buffer :: BufferedBlockAlgorithm
  hash :: WordArray

text \<open>
  The loop of \<open>process\<close> over the block offsets. With \<open>blockSize = 0\<close> the source
  has \<open>nWordsReady\<close> 0 or NaN and never enters the loop.
\<close>

function processBlocks ::
  "nat \<Rightarrow> nat \<Rightarrow> nat \<Rightarrow> 32 word list \<times> 32 word list \<Rightarrow> 32 word list \<times> 32 word list" where
  "processBlocks bs nWordsReady offset HM =
     (if offset < nWordsReady \<and> 0 < bs
      then processBlocks bs nWordsReady (offset + bs) (doProcessBlock (fst HM) (snd HM) offset)
      else HM)"
  by pat_completeness auto
termination
  by (relation "measure (\<lambda>(bs, n, offset, HM). n - offset)") auto

text \<open>
  \<open>process(doFlush, hasher)\<close>: the returned WordArray and the state after the call.
  Sizes are natural numbers. With \<open>blockSize = 0\<close> the quotient of the source is
  Infinity or NaN, \<open>nWordsReady\<close> is 0 (without \<open>doFlush\<close>) or NaN (with it), the
  guarded block is skipped and the hasher is left as it was, as it is here, where the
  quotient is 0; the byte count of the WordArray returned under \<open>doFlush\<close> is then NaN
  in the source and 0 here.
\<close>

definition process :: "bool \<Rightarrow> Hasher \<Rightarrow> WordArray \<times> Hasher" where
  "process doFlush h =
     (let b = buffer h;
          dataWords = words (data b);
          dataSigBytes = sigBytes (data b);
          blockSizeBytes = blockSize b * 4;
          nBlocksReady =
            (if doFlush
             then (dataSigBytes + blockSizeBytes - 1) div blockSizeBytes
             else nat (max (toInt32 (dataSigBytes div blockSizeBytes) - int (minBufferSize b)) 0));
          nWordsReady = nBlocksReady * blockSize b;
          nBytesReady = min (nWordsReady * 4) dataSigBytes
      in if nWordsReady \<noteq> 0
         then
           (let (H, dataWords) =
                  processBlocks (blockSize b) nWordsReady 0 (words (hash h), dataWords);
                processedWords = take nWordsReady dataWords;
                dataWords = drop nWordsReady dataWords
            in (WordArray_new (Some processedWords) (Some nBytesReady),
                \<lparr>buffer = b\<lparr>data := \<lparr>words = dataWords, sigBytes = dataSigBytes - nBytesReady\<rparr>\<rparr>,
                 hash = (hash h)\<lparr>words := H\<rparr>\<rparr>))
         else (WordArray_new None (Some nBytesReady), h))"

text \<open>
  \<open>doFinalize\<close>, in two parts: the padding (lines 132 to 146), and the call of
  \<open>process\<close> with the final swap of the hash words.
\<close>

definition addPadding :: "Hasher \<Rightarrow> Hasher" where
  "addPadding h =
     (let b = buffer h;
          dataWords = words (data b);
          nBitsTotal = nDataBytes b * 8;
          nBitsLeft = sigBytes (data b) * 8;
          dataWords =
            js_set dataWords (ushr nBitsLeft 5)
              (js_get dataWords (ushr nBitsLeft 5) OR push_bit (24 - nBitsLeft mod 32) 0x80);
          nBitsTotalH = nBitsTotal div 0x100000000;
          nBitsTotalL = nBitsTotal;
          dataWords =
            js_set dataWords (ushr (nBitsLeft + 64) 9 * 16 + 15) (swapEndian (of_nat nBitsTotalH));
          dataWords =
            js_set dataWords (ushr (nBitsLeft + 64) 9 * 16 + 14) (swapEndian (of_nat nBitsTotalL))
      in h\<lparr>buffer := b\<lparr>data := \<lparr>words = dataWords, sigBytes = (length dataWords + 1) * 4\<rparr>\<rparr>\<rparr>)"

definition doFinalize :: "Hasher \<Rightarrow> WordArray \<times> Hasher" where
  "doFinalize h =
     (let h = snd (process False (addPadding h));
          hash' = (hash h)\<lparr>words := swapWords 4 0 (words (hash h))\<rparr>
      in (hash', h\<lparr>hash := hash'\<rparr>))"

definition reset :: "Hasher \<Rightarrow> Hasher" where
  "reset h = \<lparr>buffer = buffer_reset (buffer h), hash = doReset\<rparr>"

text \<open>The constructor stores the buffer it is given and calls \<open>reset\<close>.\<close>

definition Hasher_new :: "BufferedBlockAlgorithm \<Rightarrow> Hasher" where
  "Hasher_new b = reset \<lparr>buffer = b, hash = WordArray_new None None\<rparr>"

definition update :: "message \<Rightarrow> Hasher \<Rightarrow> Hasher" where
  "update messageUpdate h = snd (process False (h\<lparr>buffer := append_data messageUpdate (buffer h)\<rparr>))"

text \<open>
  \<open>finalize(messageUpdate)\<close>: the argument may be left out, and \<open>if (messageUpdate)\<close>
  skips the empty string as well; every object passes. \<open>finalUpdate\<close> is the final
  message update (lines 73 to 76).
\<close>

definition truthy :: "message option \<Rightarrow> bool" where
  "truthy m = (case m of None \<Rightarrow> False | Some (Str s) \<Rightarrow> s \<noteq> [] | Some (WA w) \<Rightarrow> True)"

definition finalUpdate :: "message option \<Rightarrow> Hasher \<Rightarrow> Hasher" where
  "finalUpdate messageUpdate h =
     (if truthy messageUpdate
      then h\<lparr>buffer := append_data (the messageUpdate) (buffer h)\<rparr>
      else h)"

definition finalize :: "message option \<Rightarrow> Hasher \<Rightarrow> WordArray \<times> Hasher" where
  "finalize messageUpdate h = doFinalize (finalUpdate messageUpdate h)"

section \<open>Sequences of calls\<close>

text \<open>The calls a client can make on a hasher, and a hasher after a sequence of them.\<close>

datatype operation = Reset | Update message | Finalize "message option"

fun perform :: "operation \<Rightarrow> Hasher \<Rightarrow> Hasher" where
  "perform Reset h = reset h"
| "perform (Update m) h = update m h"
| "perform (Finalize m) h = snd (finalize m h)"

section \<open>Auxiliary notions\<close>

text \<open>The number of words that \<open>process\<close> passes to the block loop and removes.\<close>

definition nWordsReady :: "bool \<Rightarrow> BufferedBlockAlgorithm \<Rightarrow> nat" where
  "nWordsReady doFlush b =
     (if doFlush
      then (sigBytes (data b) + blockSize b * 4 - 1) div (blockSize b * 4)
      else nat (max (toInt32 (sigBytes (data b) div (blockSize b * 4)) - int (minBufferSize b)) 0))
     * blockSize b"

text \<open>The hash words after one block: \<open>doProcessBlock\<close> on an array that is the block.\<close>

definition compress :: "32 word list \<Rightarrow> 32 word list \<Rightarrow> 32 word list" where
  "compress H blk = fst (doProcessBlock H blk 0)"

text \<open>The hash words after the first \<open>n\<close> blocks of a word list, in order.\<close>

primrec absorb :: "nat \<Rightarrow> 32 word list \<Rightarrow> 32 word list \<Rightarrow> 32 word list" where
  "absorb 0 H ws = H"
| "absorb (Suc n) H ws = absorb n (compress H (take 16 ws)) (drop 16 ws)"

text \<open>
  The three array writes of \<open>doFinalize\<close> (lines 137 to 145) as a function of the data
  words, their \<open>sigBytes\<close> and \<open>_nDataBytes\<close>.
\<close>

definition padWords :: "32 word list \<Rightarrow> nat \<Rightarrow> nat \<Rightarrow> 32 word list" where
  "padWords ws sig nTotal =
     js_set
       (js_set
          (js_set ws (ushr (sig * 8) 5)
             (js_get ws (ushr (sig * 8) 5) OR push_bit (24 - sig * 8 mod 32) 0x80))
          (ushr (sig * 8 + 64) 9 * 16 + 15) (swapEndian (of_nat (nTotal * 8 div 0x100000000))))
       (ushr (sig * 8 + 64) 9 * 16 + 14) (swapEndian (of_nat (nTotal * 8)))"

text \<open>The invariant of a word sequence: \<open>sigBytes\<close> is at most 4 times the word count.\<close>

definition sigBytesInv :: "WordArray \<Rightarrow> bool" where
  "sigBytesInv w \<longleftrightarrow> sigBytes w \<le> 4 * length (words w)"

text \<open>
  For comparison with \<open>doFinalize\<close>: the finalization as the spec words its step 5,
  "Call buffer.process(flush=true, this)".
\<close>

definition doFinalize_spec :: "Hasher \<Rightarrow> WordArray \<times> Hasher" where
  "doFinalize_spec h =
     (let h = snd (process True (addPadding h));
          hash' = (hash h)\<lparr>words := swapWords 4 0 (words (hash h))\<rparr>
      in (hash', h\<lparr>hash := hash'\<rparr>))"

text \<open>
  The bytes that \<open>append\<close> adds to the data for a message: those of the parsed string,
  or the significant bytes of the WordArray.
\<close>

definition msgBytes :: "message \<Rightarrow> 8 word list" where
  "msgBytes msg = bytesOf (case msg of Str s \<Rightarrow> parse s | WA w \<Rightarrow> w)"

text \<open>
  A hasher of block size 16 that has taken in the bytes \<open>B\<close> through \<open>update\<close>: every
  whole block of \<open>B\<close> has gone through the transform, the rest is buffered.
\<close>

definition absorbed :: "Hasher \<Rightarrow> 8 word list \<Rightarrow> bool" where
  "absorbed h B \<longleftrightarrow>
     blockSize (buffer h) = 16 \<and> minBufferSize (buffer h) = 0 \<and>
     data (buffer h) =
       \<lparr>words = packBytes (drop (64 * (length B div 64)) B), sigBytes = length B mod 64\<rparr> \<and>
     nDataBytes (buffer h) = length B \<and>
     hash h =
       \<lparr>words = absorb (length B div 64) [0x67452301, 0xefcdab89, 0x98badcfe, 0x10325476]
                 (packBytes B),
        sigBytes = 16\<rparr>"

text \<open>
  The words of a message that holds, in its first two blocks, what \<open>doFinalize\<close> writes
  when \<open>2 ^ 29\<close> and \<open>2 ^ 29 + 64\<close> bytes are buffered (the \<open>0x80\<close> byte and the two
  length words of \<open>2 ^ 32\<close> and of \<open>2 ^ 32 + 512\<close> bits), followed by \<open>n\<close> zero words.
\<close>

definition lengthWords :: "nat \<Rightarrow> 32 word list" where
  "lengthWords n =
     [0x80000000, 0, 0, 0, 0, 0, 0, 0, 0, 0, 0, 0, 0, 0, 0, 0x01000000] @
     [0x80000000, 0, 0, 0, 0, 0, 0, 0, 0, 0, 0, 0, 0, 0, 0x00020000, 0x01000000] @
     replicate n 0"

section \<open>Arrays, swaps and the block loop\<close>

declare processBlocks.simps [simp del]

lemma length_js_set: "length (js_set ws i v) = max (length ws) (Suc i)"
  by (auto simp: js_set_def)

lemma js_get_js_set: "js_get (js_set ws i v) j = (if j = i then v else js_get ws j)"
  by (auto simp: js_set_def js_get_def nth_append)

lemma js_array_eqI:
  assumes "length xs = length ys" and "\<And>j. j < length xs \<Longrightarrow> js_get xs j = js_get ys j"
  shows "xs = ys"
  using assms by (auto simp: js_get_def list_eq_iff_nth_eq)

lemma length_swapWords: "length (swapWords n p A) = (if n = 0 then length A else max (length A) (p + n))"
  by (induction n p A rule: swapWords.induct) (auto simp: length_js_set)

lemma js_get_swapWords:
  "js_get (swapWords n p A) j = (if p \<le> j \<and> j < p + n then swapEndian (js_get A j) else js_get A j)"
  by (induction n p A rule: swapWords.induct) (auto simp: js_get_js_set)

lemma swapWords_block:
  assumes "p + n \<le> length A"
  shows "swapWords n p A = take p A @ map swapEndian (take n (drop p A)) @ drop (p + n) A"
proof (rule js_array_eqI)
  show "length (swapWords n p A) = length (take p A @ map swapEndian (take n (drop p A)) @ drop (p + n) A)"
    using assms by (auto simp: length_swapWords)
next
  fix j assume "j < length (swapWords n p A)"
  then have j: "j < length A" using assms by (auto simp: length_swapWords split: if_splits)
  have "js_get (swapWords n p A) j = (if p \<le> j \<and> j < p + n then swapEndian (A ! j) else A ! j)"
    unfolding js_get_swapWords using j by (simp add: js_get_def)
  moreover have "js_get (take p A @ map swapEndian (take n (drop p A)) @ drop (p + n) A) j =
      (if p \<le> j \<and> j < p + n then swapEndian (A ! j) else A ! j)"
    using assms j by (auto simp: js_get_def nth_append)
  ultimately show "js_get (swapWords n p A) j = js_get (take p A @ map swapEndian (take n (drop p A)) @ drop (p + n) A) j"
    by simp
qed

lemma snd_doProcessBlock: "snd (doProcessBlock H M offset) = swapWords 16 offset M"
  by (simp add: doProcessBlock_def Let_def split: prod.splits)

lemma length_fst_doProcessBlock: "length (fst (doProcessBlock H M offset)) = max (length H) 4"
  by (auto simp: doProcessBlock_def Let_def length_js_set split: prod.splits)


lemma toInt32_le: "toInt32 x \<le> int x"
proof -
  have "x mod 2 ^ 32 \<le> x" by simp
  then show ?thesis by (auto simp: toInt32_def Let_def)
qed

lemma toInt32_small: "x < 2 ^ 31 \<Longrightarrow> toInt32 x = int x"
  by (simp add: toInt32_def Let_def)

lemma processBlocks_0: "processBlocks bs 0 offset HM = HM"
  by (simp add: processBlocks.simps)

lemma process_unfold:
  "process f h =
     (let nW = nWordsReady f (buffer h);
          nB = min (nW * 4) (sigBytes (data (buffer h)));
          HM = processBlocks (blockSize (buffer h)) nW 0 (words (hash h), words (data (buffer h)))
      in (\<lparr>words = take nW (snd HM), sigBytes = nB\<rparr>,
          \<lparr>buffer = (buffer h)\<lparr>data := \<lparr>words = drop nW (snd HM),
                                           sigBytes = sigBytes (data (buffer h)) - nB\<rparr>\<rparr>,
           hash = (hash h)\<lparr>words := fst HM\<rparr>\<rparr>))"
proof -
  define pc where "pc nW =
     (let nB = min (nW * 4) (sigBytes (data (buffer h)))
      in if nW \<noteq> 0
         then
           (let (H, dataWords) =
                  processBlocks (blockSize (buffer h)) nW 0 (words (hash h), words (data (buffer h)));
                processedWords = take nW dataWords;
                dataWords = drop nW dataWords
            in (WordArray_new (Some processedWords) (Some nB),
                \<lparr>buffer = (buffer h)\<lparr>data := \<lparr>words = dataWords,
                         sigBytes = sigBytes (data (buffer h)) - nB\<rparr>\<rparr>,
                 hash = (hash h)\<lparr>words := H\<rparr>\<rparr>))
         else (WordArray_new None (Some nB), h))" for nW
  have "process f h = pc (nWordsReady f (buffer h))"
    by (simp add: process_def pc_def nWordsReady_def Let_def)
  moreover have "pc nW =
     (let nB = min (nW * 4) (sigBytes (data (buffer h)));
          HM = processBlocks (blockSize (buffer h)) nW 0 (words (hash h), words (data (buffer h)))
      in (\<lparr>words = take nW (snd HM), sigBytes = nB\<rparr>,
          \<lparr>buffer = (buffer h)\<lparr>data := \<lparr>words = drop nW (snd HM),
                                           sigBytes = sigBytes (data (buffer h)) - nB\<rparr>\<rparr>,
           hash = (hash h)\<lparr>words := fst HM\<rparr>\<rparr>))" for nW
    by (cases "nW = 0")
       (simp_all add: pc_def Let_def processBlocks_0 WordArray_new_def split: prod.splits)
  ultimately show ?thesis by (simp add: Let_def)
qed

lemma nWordsReady_False_le: "nWordsReady False b * 4 \<le> sigBytes (data b)"
proof -
  define q where "q = sigBytes (data b) div (blockSize b * 4)"
  define n where "n = nat (max (toInt32 q - int (minBufferSize b)) 0)"
  have "int n \<le> int q" using toInt32_le [of q] by (simp add: n_def)
  then have "n * (blockSize b * 4) \<le> q * (blockSize b * 4)" by simp
  also have "\<dots> \<le> sigBytes (data b)" by (simp add: q_def)
  finally show ?thesis by (simp add: nWordsReady_def n_def q_def mult.assoc)
qed

lemma nWordsReady_True_ge:
  assumes "0 < blockSize b"
  shows "sigBytes (data b) \<le> nWordsReady True b * 4"
proof -
  define bsb where "bsb = blockSize b * 4"
  define sig where "sig = sigBytes (data b)"
  have bsb: "0 < bsb" using assms by (simp add: bsb_def)
  have "sig + bsb - 1 = (sig + bsb - 1) div bsb * bsb + (sig + bsb - 1) mod bsb" by simp
  moreover have "(sig + bsb - 1) mod bsb < bsb" using bsb by simp
  ultimately have "sig \<le> (sig + bsb - 1) div bsb * bsb" by linarith
  then show ?thesis by (simp add: nWordsReady_def bsb_def sig_def mult.assoc)
qed

lemma process_config:
  "blockSize (buffer (snd (process f h))) = blockSize (buffer h) \<and>
   minBufferSize (buffer (snd (process f h))) = minBufferSize (buffer h)"
  by (simp add: process_unfold Let_def)

lemma perform_config:
  "blockSize (buffer (perform op h)) = blockSize (buffer h) \<and>
   minBufferSize (buffer (perform op h)) = minBufferSize (buffer h)"
proof (cases op)
  case Reset
  then show ?thesis by (simp add: reset_def buffer_reset_def)
next
  case (Update m)
  then show ?thesis by (simp add: update_def process_config append_data_def Let_def)
next
  case (Finalize m)
  then show ?thesis
    by (simp add: finalize_def doFinalize_def finalUpdate_def Let_def process_config
        addPadding_def append_data_def)
qed

lemma fold_perform_config:
  "blockSize (buffer (fold perform ops h)) = blockSize (buffer h) \<and>
   minBufferSize (buffer (fold perform ops h)) = minBufferSize (buffer h)"
  by (induction ops arbitrary: h) (simp_all add: perform_config)

lemma computation_cong:
  assumes "\<And>k. k < 16 \<Longrightarrow> X k = Y k"
  shows "computation abcd X = computation abcd Y"
proof -
  have e: "X 0 = Y 0" "X 1 = Y 1" "X 2 = Y 2" "X 3 = Y 3" "X 4 = Y 4" "X 5 = Y 5" "X 6 = Y 6"
    "X 7 = Y 7" "X 8 = Y 8" "X 9 = Y 9" "X 10 = Y 10" "X 11 = Y 11" "X 12 = Y 12" "X 13 = Y 13"
    "X 14 = Y 14" "X 15 = Y 15"
    by (simp_all add: assms)
  show ?thesis unfolding computation_def e ..
qed

lemma fst_doProcessBlock_local:
  assumes "offset + 16 \<le> length M"
  shows "fst (doProcessBlock H M offset) = compress H (take 16 (drop offset M))"
proof -
  have "computation abcd (\<lambda>k. js_get (swapWords 16 offset M) (offset + k)) =
        computation abcd (\<lambda>k. js_get (swapWords 16 0 (take 16 (drop offset M))) (0 + k))" for abcd
  proof (rule computation_cong)
    fix k :: nat assume "k < 16"
    then show "js_get (swapWords 16 offset M) (offset + k) =
               js_get (swapWords 16 0 (take 16 (drop offset M))) (0 + k)"
      unfolding js_get_swapWords using assms by (simp add: js_get_def)
  qed
  then show ?thesis by (simp add: doProcessBlock_def compress_def Let_def case_prod_beta)
qed

lemma doProcessBlock_block:
  assumes "offset + 16 \<le> length M"
  shows "doProcessBlock H M offset =
         (compress H (take 16 (drop offset M)),
          take offset M @ map swapEndian (take 16 (drop offset M)) @ drop (offset + 16) M)"
  using assms
  by (simp add: prod_eq_iff fst_doProcessBlock_local snd_doProcessBlock swapWords_block)

lemma processBlocks_absorb:
  assumes "offset + 16 * n \<le> length M"
  shows "processBlocks 16 (offset + 16 * n) offset (H, M) =
         (absorb n H (drop offset M),
          take offset M @ map swapEndian (take (16 * n) (drop offset M)) @ drop (offset + 16 * n) M)"
  using assms
proof (induction n arbitrary: offset H M)
  case 0
  then show ?case by (simp add: processBlocks.simps)
next
  case (Suc n)
  let ?M' = "take offset M @ map swapEndian (take 16 (drop offset M)) @ drop (offset + 16) M"
  let ?H' = "compress H (take 16 (drop offset M))"
  have len: "length ?M' = length M" using Suc.prems by simp
  have step: "processBlocks 16 (offset + 16 * Suc n) offset (H, M) =
              processBlocks 16 ((offset + 16) + 16 * n) (offset + 16) (?H', ?M')"
    using Suc.prems by (subst processBlocks.simps) (simp add: doProcessBlock_block add.assoc)
  have d: "drop (offset + 16) ?M' = drop (offset + 16) M" using Suc.prems by simp
  have t: "take (offset + 16) ?M' = take offset M @ map swapEndian (take 16 (drop offset M))"
    using Suc.prems by simp
  have IH: "processBlocks 16 ((offset + 16) + 16 * n) (offset + 16) (?H', ?M') =
        (absorb n ?H' (drop (offset + 16) ?M'),
         take (offset + 16) ?M' @ map swapEndian (take (16 * n) (drop (offset + 16) ?M')) @
         drop ((offset + 16) + 16 * n) ?M')"
    by (rule Suc.IH) (use Suc.prems len in simp)
  have d2: "drop (offset + 16 + 16 * n) ?M' = drop (offset + 16 * Suc n) M"
  proof -
    have "drop (offset + 16 + 16 * n) ?M' = drop (16 * n) (drop (offset + 16) ?M')"
      by (simp only: drop_drop add.commute)
    also have "\<dots> = drop (16 * n) (drop (offset + 16) M)" by (simp only: d)
    also have "\<dots> = drop (offset + 16 * Suc n) M" by (simp add: ac_simps)
    finally show ?thesis .
  qed
  have tk: "take (16 * Suc n) (drop offset M) =
            take 16 (drop offset M) @ take (16 * n) (drop (offset + 16) M)"
    by (simp add: take_add add.commute)
  show ?case
    unfolding step IH d t d2 tk by (simp add: add.commute)
qed

lemma ushr_small: "x < 2 ^ 32 \<Longrightarrow> ushr x k = x div 2 ^ k"
  by (simp add: ushr_def)

lemma addPadding_eq:
  "addPadding h =
   h\<lparr>buffer := (buffer h)\<lparr>data :=
       \<lparr>words = padWords (words (data (buffer h))) (sigBytes (data (buffer h))) (nDataBytes (buffer h)),
        sigBytes = (length (padWords (words (data (buffer h))) (sigBytes (data (buffer h)))
                     (nDataBytes (buffer h))) + 1) * 4\<rparr>\<rparr>\<rparr>"
  by (simp add: addPadding_def padWords_def Let_def)

lemma length_padWords:
  assumes "length ws \<le> sig div 4 + 1" and "sig * 8 + 64 < 2 ^ 32"
  shows "length (padWords ws sig N) = 16 * ((sig + 8) div 64 + 1)"
proof -
  have a: "ushr (sig * 8) 5 = sig div 4"
    using assms(2) by (simp add: ushr_small)
  have b: "ushr (sig * 8 + 64) 9 = (sig + 8) div 64"
    using assms(2) by (simp add: ushr_small)
  show ?thesis
    using assms(1) by (simp add: padWords_def a b length_js_set) 
qed

lemma process_addPadding:
  assumes bs: "blockSize (buffer h) = 16" and mb: "minBufferSize (buffer h) = 0"
    and tight: "length (words (data (buffer h))) \<le> sigBytes (data (buffer h)) div 4 + 1"
    and bound: "sigBytes (data (buffer h)) * 8 + 64 < 2 ^ 32"
  defines "PW \<equiv> padWords (words (data (buffer h))) (sigBytes (data (buffer h))) (nDataBytes (buffer h))"
  shows "process False (addPadding h) =
        (\<lparr>words = map swapEndian PW, sigBytes = 4 * length PW\<rparr>,
         \<lparr>buffer = (buffer h)\<lparr>data := \<lparr>words = [], sigBytes = 4\<rparr>\<rparr>,
          hash = (hash h)\<lparr>words := absorb (length PW div 16) (words (hash h)) PW\<rparr>\<rparr>)"
proof -
  define k where "k = (sigBytes (data (buffer h)) + 8) div 64 + 1"
  have len: "length PW = 16 * k"
    unfolding PW_def k_def using tight bound by (rule length_padWords)
  have k: "k < 2 ^ 31" using bound by (simp add: k_def)
  have "((16 * k + 1) * 4) div (16 * 4) = k" by simp
  then have nW: "nWordsReady False (buffer (addPadding h)) = 16 * k"
    using k by (simp add: nWordsReady_def addPadding_eq PW_def [symmetric] len bs mb toInt32_small)
  have pb: "processBlocks 16 (16 * k) 0 (words (hash h), PW) =
            (absorb k (words (hash h)) PW, map swapEndian PW)"
    using processBlocks_absorb [of 0 k PW "words (hash h)"] len by simp
  show ?thesis
    by (simp add: process_unfold Let_def nW)
       (simp add: addPadding_eq PW_def [symmetric] len bs pb)
qed

lemma length_bytesOf: "length (bytesOf w) = sigBytes w"
  by (simp add: bytesOf_def)

lemma length_packBytes: "length (packBytes bs) = (length bs + 3) div 4"
  by (simp add: packBytes_def)

lemma sigBytesInv_concat_wa: "sigBytesInv (concat_wa a b)"
  by (simp add: sigBytesInv_def concat_wa_def length_packBytes length_bytesOf)

lemma length_processBlocks_ge: "length (snd HM) \<le> length (snd (processBlocks bs n offset HM))"
proof (induction bs n offset HM rule: processBlocks.induct)
  case (1 bs nWordsReady offset HM)
  show ?case
  proof (cases "offset < nWordsReady \<and> 0 < bs")
    case True
    have "length (snd HM) \<le> length (snd (doProcessBlock (fst HM) (snd HM) offset))"
      by (simp add: snd_doProcessBlock length_swapWords)
    also have "\<dots> \<le> length (snd (processBlocks bs nWordsReady (offset + bs)
                          (doProcessBlock (fst HM) (snd HM) offset)))"
      using True by (rule 1)
    finally show ?thesis using True by (subst processBlocks.simps) simp
  next
    case False
    then show ?thesis by (subst processBlocks.simps) auto
  qed
qed

lemma sigBytesInv_process:
  assumes "sigBytesInv (data (buffer h))"
  shows "sigBytesInv (data (buffer (snd (process f h))))"
proof -
  let ?nW = "nWordsReady f (buffer h)"
  let ?M' = "snd (processBlocks (blockSize (buffer h)) ?nW 0 (words (hash h), words (data (buffer h))))"
  have "length (words (data (buffer h))) \<le> length ?M'"
    using length_processBlocks_ge [of "(words (hash h), words (data (buffer h)))"] by simp
  then show ?thesis
    using assms by (simp add: sigBytesInv_def process_unfold Let_def)
qed


lemma finalUpdate_config:
  "blockSize (buffer (finalUpdate m h)) = blockSize (buffer h) \<and>
   minBufferSize (buffer (finalUpdate m h)) = minBufferSize (buffer h)"
  by (simp add: finalUpdate_def append_data_def Let_def)

lemma doFinalize_eq:
  assumes "blockSize (buffer h) = 16" and "minBufferSize (buffer h) = 0"
    and "length (words (data (buffer h))) \<le> sigBytes (data (buffer h)) div 4 + 1"
    and "sigBytes (data (buffer h)) * 8 + 64 < 2 ^ 32"
  defines "PW \<equiv> padWords (words (data (buffer h))) (sigBytes (data (buffer h))) (nDataBytes (buffer h))"
  shows "doFinalize h =
     ((hash h)\<lparr>words := swapWords 4 0 (absorb (length PW div 16) (words (hash h)) PW)\<rparr>,
      \<lparr>buffer = (buffer h)\<lparr>data := \<lparr>words = [], sigBytes = 4\<rparr>\<rparr>,
       hash = (hash h)\<lparr>words := swapWords 4 0 (absorb (length PW div 16) (words (hash h)) PW)\<rparr>\<rparr>)"
  using process_addPadding [OF assms(1-4)]
  by (simp add: doFinalize_def Let_def PW_def)

lemma fresh_hasher:
  "Hasher_new (BufferedBlockAlgorithm_new bs) =
   \<lparr>buffer = \<lparr>blockSize = bs, minBufferSize = 0, data = \<lparr>words = [], sigBytes = 0\<rparr>,
              nDataBytes = 0\<rparr>,
    hash = \<lparr>words = [0x67452301, 0xefcdab89, 0x98badcfe, 0x10325476], sigBytes = 16\<rparr>\<rparr>"
  by (simp add: Hasher_new_def reset_def buffer_reset_def BufferedBlockAlgorithm_new_def
      WordArray_new_def doReset_def)

lemma doFinalize_spec_sigBytes:
  assumes "0 < blockSize (buffer h)"
  shows "sigBytes (data (buffer (snd (doFinalize_spec h)))) = 0"
proof -
  have "0 < blockSize (buffer (addPadding h))" using assms by (simp add: addPadding_eq)
  from nWordsReady_True_ge [OF this] show ?thesis
    by (simp add: doFinalize_spec_def Let_def process_unfold)
qed


section \<open>Bytes and words\<close>

lemma fromBytes_byte0: "ucast (drop_bit 24 (fromBytes a b c d)) = a"
  by (rule bit_word_eqI) (auto simp: fromBytes_def bit_simps dest: bit_imp_le_length)

lemma fromBytes_byte1: "ucast (drop_bit 16 (fromBytes a b c d)) = b"
  by (rule bit_word_eqI) (auto simp: fromBytes_def bit_simps dest: bit_imp_le_length)

lemma fromBytes_byte2: "ucast (drop_bit 8 (fromBytes a b c d)) = c"
  by (rule bit_word_eqI) (auto simp: fromBytes_def bit_simps dest: bit_imp_le_length)

lemma fromBytes_byte3: "ucast (fromBytes a b c d) = d"
  by (rule bit_word_eqI) (auto simp: fromBytes_def bit_simps dest: bit_imp_le_length)

lemma byteAt_packBytes:
  assumes "i < length bs"
  shows "byteAt (packBytes bs) i = bs ! i"
proof -
  have k: "i div 4 < (length bs + 3) div 4" using assms by simp
  have w: "js_get (packBytes bs) (i div 4) = wordOfBytes bs (i div 4)"
    using k by (simp add: js_get_def packBytes_def)
  have "i mod 4 < 4" by simp
  then consider "i mod 4 = 0" | "i mod 4 = 1" | "i mod 4 = 2" | "i mod 4 = 3" by linarith
  then show ?thesis
  proof cases
    case 1
    then have "4 * (i div 4) = i" using mult_div_mod_eq [of 4 i] by simp
    with 1 assms show ?thesis
      by (simp add: byteAt_def w wordOfBytes_def fromBytes_byte0 byteOrZero_def)
  next
    case 2
    then have "4 * (i div 4) + 1 = i" using mult_div_mod_eq [of 4 i] by simp
    with 2 assms show ?thesis
      by (simp add: byteAt_def w wordOfBytes_def fromBytes_byte1 byteOrZero_def)
  next
    case 3
    then have "4 * (i div 4) + 2 = i" using mult_div_mod_eq [of 4 i] by simp
    with 3 assms show ?thesis
      by (simp add: byteAt_def w wordOfBytes_def fromBytes_byte2 byteOrZero_def)
  next
    case 4
    then have "4 * (i div 4) + 3 = i" using mult_div_mod_eq [of 4 i] by simp
    with 4 assms show ?thesis
      by (simp add: byteAt_def w wordOfBytes_def fromBytes_byte3 byteOrZero_def)
  qed
qed

lemma bytesOf_packBytes: "bytesOf \<lparr>words = packBytes bs, sigBytes = length bs\<rparr> = bs"
proof (rule nth_equalityI)
  show "length (bytesOf \<lparr>words = packBytes bs, sigBytes = length bs\<rparr>) = length bs"
    by (simp add: length_bytesOf)
next
  fix i assume "i < length (bytesOf \<lparr>words = packBytes bs, sigBytes = length bs\<rparr>)"
  then have "i < length bs" by (simp add: length_bytesOf)
  then show "bytesOf \<lparr>words = packBytes bs, sigBytes = length bs\<rparr> ! i = bs ! i"
    by (simp add: bytesOf_def byteAt_packBytes)
qed

lemma absorb_append:
  assumes "length xs = 16 * m"
  shows "absorb (m + n) H (xs @ ys) = absorb n (absorb m H xs) ys"
  using assms
proof (induction m arbitrary: H xs)
  case 0
  then show ?case by simp
next
  case (Suc m)
  then have "length (drop 16 xs) = 16 * m" by simp
  from Suc.IH [OF this] Suc.prems show ?case by simp
qed

lemma absorb_prefix:
  assumes "length xs = 16 * m"
  shows "absorb m H (xs @ ys) = absorb m H xs"
  using absorb_append [OF assms, of 0 H ys] by simp

lemma js_set_append: "js_set (xs @ ws) (length xs + i) v = xs @ js_set ws i v"
  by (simp add: js_set_def list_update_append)

lemma js_get_append: "js_get (xs @ ws) (length xs + i) = js_get ws i"
  by (simp add: js_get_def nth_append)

lemma padWords_append:
  assumes "length xs = 16 * m" and "(4 * length xs + sig) * 8 + 64 < 2 ^ 32"
  shows "padWords (xs @ ws) (4 * length xs + sig) N = xs @ padWords ws sig N"
proof -
  have s1: "sig * 8 < 2 ^ 32" "sig * 8 + 64 < 2 ^ 32" using assms(2) by simp_all
  have "(4 * length xs + sig) * 8 = 32 * length xs + sig * 8" by simp
  then have "(4 * length xs + sig) * 8 div 32 = length xs + sig * 8 div 32" by simp
  then have a: "ushr ((4 * length xs + sig) * 8) 5 = length xs + ushr (sig * 8) 5"
    using assms(2) s1 by (simp add: ushr_small)
  have "(4 * length xs + sig) * 8 + 64 = 512 * m + (sig * 8 + 64)" using assms(1) by simp
  then have "((4 * length xs + sig) * 8 + 64) div 512 = m + (sig * 8 + 64) div 512" by simp
  then have e: "ushr ((4 * length xs + sig) * 8 + 64) 9 = m + ushr (sig * 8 + 64) 9"
    using assms(2) s1 by (simp add: ushr_small)
  have b: "ushr ((4 * length xs + sig) * 8 + 64) 9 * 16 + 15 = length xs + (ushr (sig * 8 + 64) 9 * 16 + 15)"
    "ushr ((4 * length xs + sig) * 8 + 64) 9 * 16 + 14 = length xs + (ushr (sig * 8 + 64) 9 * 16 + 14)"
    unfolding e using assms(1) by simp_all
  have c: "(4 * length xs + sig) * 8 mod 32 = sig * 8 mod 32"
  proof -
    have "(4 * length xs + sig) * 8 = 32 * length xs + sig * 8" by simp
    then show ?thesis by simp
  qed
  show ?thesis
    unfolding padWords_def a b c js_get_append js_set_append ..
qed

lemma byteOrZero_append:
  "byteOrZero (xs @ ys) i =
     (if i < length xs then byteOrZero xs i else byteOrZero ys (i - length xs))"
  by (auto simp: byteOrZero_def nth_append)

lemma packBytes_append:
  assumes "length xs = 4 * q"
  shows "packBytes (xs @ ys) = packBytes xs @ packBytes ys"
proof (rule nth_equalityI)
  show "length (packBytes (xs @ ys)) = length (packBytes xs @ packBytes ys)"
    using assms by (simp add: length_packBytes)
next
  fix k assume "k < length (packBytes (xs @ ys))"
  then have k: "k < q + (length ys + 3) div 4" using assms by (simp add: length_packBytes)
  have lx: "length (packBytes xs) = q" using assms by (simp add: length_packBytes)
  show "packBytes (xs @ ys) ! k = (packBytes xs @ packBytes ys) ! k"
  proof (cases "k < q")
    case True
    then have "wordOfBytes (xs @ ys) k = wordOfBytes xs k"
      using assms by (simp add: wordOfBytes_def byteOrZero_append)
    with True k show ?thesis
      using assms by (simp add: nth_append lx) (simp add: packBytes_def)
  next
    case False
    then have "4 * k - 4 * q = 4 * (k - q)" "4 * k + 1 - 4 * q = 4 * (k - q) + 1"
      "4 * k + 2 - 4 * q = 4 * (k - q) + 2" "4 * k + 3 - 4 * q = 4 * (k - q) + 3"
      by simp_all
    with False have "wordOfBytes (xs @ ys) k = wordOfBytes ys (k - q)"
      using assms by (simp add: wordOfBytes_def byteOrZero_append)
    with False k show ?thesis
      using assms by (simp add: nth_append lx) (simp add: packBytes_def)
  qed
qed

lemma packBytes_drop:
  assumes "64 * n \<le> length bs"
  shows "drop (16 * n) (packBytes bs) = packBytes (drop (64 * n) bs)"
proof -
  have l: "length (take (64 * n) bs) = 4 * (16 * n)" using assms by simp
  have "packBytes bs = packBytes (take (64 * n) bs @ drop (64 * n) bs)" by simp
  also have "\<dots> = packBytes (take (64 * n) bs) @ packBytes (drop (64 * n) bs)"
    using l by (rule packBytes_append)
  finally show ?thesis using l by (simp add: length_packBytes)
qed

lemma packBytes_take:
  assumes "64 * n \<le> length bs"
  shows "take (16 * n) (packBytes bs) = packBytes (take (64 * n) bs)"
proof -
  have l: "length (take (64 * n) bs) = 4 * (16 * n)" using assms by simp
  have "packBytes bs = packBytes (take (64 * n) bs @ drop (64 * n) bs)" by simp
  also have "\<dots> = packBytes (take (64 * n) bs) @ packBytes (drop (64 * n) bs)"
    using l by (rule packBytes_append)
  finally show ?thesis using l by (simp add: length_packBytes)
qed

lemma js_get_packBytes:
  "js_get (packBytes bs) k = (if k < (length bs + 3) div 4 then wordOfBytes bs k else 0)"
  by (simp add: js_get_def packBytes_def)

lemma byteOrZero_snoc:
  "byteOrZero (pre @ [b]) i =
     (if i < length pre then pre ! i else if i = length pre then b else 0)"
  by (auto simp: byteOrZero_def nth_append)

lemma packBytes_snoc:
  "packBytes (pre @ [b]) =
   js_set (packBytes pre) (length pre div 4)
     (js_get (packBytes pre) (length pre div 4) OR
      push_bit (24 - (length pre mod 4) * 8) (ucast b))"
proof (rule js_array_eqI)
  show "length (packBytes (pre @ [b])) =
        length (js_set (packBytes pre) (length pre div 4)
          (js_get (packBytes pre) (length pre div 4) OR
           push_bit (24 - (length pre mod 4) * 8) (ucast b)))"
    by (simp add: length_packBytes length_js_set)
next
  fix j assume "j < length (packBytes (pre @ [b]))"
  then have jl: "j < (length (pre @ [b]) + 3) div 4" by (simp only: length_packBytes)
  have d4: "(length pre + 4) div 4 = length pre div 4 + 1" by (rule div_add_self2) simp
  with jl have j: "j \<le> length pre div 4" by simp
  define q where "q = length pre div 4"
  have "length pre mod 4 < 4" by simp
  then consider "length pre mod 4 = 0" | "length pre mod 4 = 1" | "length pre mod 4 = 2"
    | "length pre mod 4 = 3" by linarith
  then have top: "wordOfBytes (pre @ [b]) q =
      js_get (packBytes pre) q OR push_bit (24 - (length pre mod 4) * 8) (ucast b)"
  proof cases
    case 1
    then have l: "length pre = 4 * q" using mult_div_mod_eq [of 4 "length pre"] by (simp add: q_def)
    have L: "wordOfBytes (pre @ [b]) q = fromBytes b 0 0 0"
      by (simp add: wordOfBytes_def byteOrZero_snoc l)
    have W: "js_get (packBytes pre) q = 0"
      by (simp add: js_get_packBytes l)
    show ?thesis by (simp add: 1 L W fromBytes_def)
  next
    case 2
    then have l: "length pre = 4 * q + 1" using mult_div_mod_eq [of 4 "length pre"] by (simp add: q_def)
    have L: "wordOfBytes (pre @ [b]) q = fromBytes (pre ! (4 * q)) b 0 0"
      by (simp add: wordOfBytes_def byteOrZero_snoc l)
    have R: "wordOfBytes pre q = fromBytes (pre ! (4 * q)) 0 0 0"
      by (simp add: wordOfBytes_def byteOrZero_def l)
    have W: "js_get (packBytes pre) q = wordOfBytes pre q"
      by (simp add: js_get_packBytes l)
    show ?thesis by (simp add: 2 L R W fromBytes_def or.assoc)
  next
    case 3
    then have l: "length pre = 4 * q + 2" using mult_div_mod_eq [of 4 "length pre"] by (simp add: q_def)
    have L: "wordOfBytes (pre @ [b]) q = fromBytes (pre ! (4 * q)) (pre ! (4 * q + 1)) b 0"
      by (simp add: wordOfBytes_def byteOrZero_snoc l)
    have R: "wordOfBytes pre q = fromBytes (pre ! (4 * q)) (pre ! (4 * q + 1)) 0 0"
      by (simp add: wordOfBytes_def byteOrZero_def l)
    have W: "js_get (packBytes pre) q = wordOfBytes pre q"
      by (simp add: js_get_packBytes l)
    show ?thesis by (simp add: 3 L R W fromBytes_def or.assoc)
  next
    case 4
    then have l: "length pre = 4 * q + 3" using mult_div_mod_eq [of 4 "length pre"] by (simp add: q_def)
    have L: "wordOfBytes (pre @ [b]) q =
             fromBytes (pre ! (4 * q)) (pre ! (4 * q + 1)) (pre ! (4 * q + 2)) b"
      by (simp add: wordOfBytes_def byteOrZero_snoc l)
    have R: "wordOfBytes pre q = fromBytes (pre ! (4 * q)) (pre ! (4 * q + 1)) (pre ! (4 * q + 2)) 0"
      by (simp add: wordOfBytes_def byteOrZero_def l)
    have W: "js_get (packBytes pre) q = wordOfBytes pre q"
      by (simp add: js_get_packBytes l)
    show ?thesis by (simp add: 4 L R W fromBytes_def or.assoc)
  qed
  show "js_get (packBytes (pre @ [b])) j =
        js_get (js_set (packBytes pre) (length pre div 4)
          (js_get (packBytes pre) (length pre div 4) OR
           push_bit (24 - (length pre mod 4) * 8) (ucast b))) j"
  proof (cases "j = q")
    case True
    have "(length pre + 4) div 4 = length pre div 4 + 1" by (rule div_add_self2) simp
    then have "q < (length (pre @ [b]) + 3) div 4" by (simp add: q_def)
    then have "js_get (packBytes (pre @ [b])) q = wordOfBytes (pre @ [b]) q"
      by (simp only: js_get_packBytes if_True)
    with True top show ?thesis by (simp add: js_get_js_set q_def)
  next
    case False
    with j have jq: "j < q" by (simp add: q_def)
    then have "4 * j + 3 < length pre" by (simp add: q_def)
    then have "wordOfBytes (pre @ [b]) j = wordOfBytes pre j"
      by (simp add: wordOfBytes_def byteOrZero_def nth_append)
    moreover have "js_get (packBytes (pre @ [b])) j = wordOfBytes (pre @ [b]) j"
      using jl by (simp only: js_get_packBytes if_True)
    moreover have "js_get (packBytes pre) j = wordOfBytes pre j"
    proof -
      have "length pre div 4 \<le> (length pre + 3) div 4" by (rule div_le_mono) simp
      with jq have "j < (length pre + 3) div 4" by (simp add: q_def)
      then show ?thesis by (simp only: js_get_packBytes if_True)
    qed
    ultimately show ?thesis using False by (simp add: js_get_js_set q_def)
  qed
qed

lemma of_char_byte: "(of_char c :: 32 word) AND 0xff = ucast (of_char c :: 8 word)"
proof -
  define n :: nat where "n = of_char c"
  have n: "n < 2 ^ 8" by (simp add: n_def)
  have a: "(of_char c :: 32 word) = of_nat n" and b: "(of_char c :: 8 word) = of_nat n"
    by (simp_all add: n_def of_nat_of_char)
  have "(of_nat n :: 32 word) AND 0xff = take_bit 8 (of_nat n)"
    by (simp add: take_bit_eq_mask mask_eq_exp_minus_1)
  also have "\<dots> = of_nat (take_bit 8 n)" by (simp add: take_bit_of_nat)
  also have "\<dots> = ucast (of_nat n :: 8 word)" by (simp add: unsigned_of_nat)
  finally show ?thesis by (simp add: a b)
qed

lemma parse_loop_packBytes:
  assumes "length pre + length cs \<le> 2 ^ 32"
  shows "parse_loop cs (length pre) (packBytes pre) = packBytes (pre @ map of_char cs)"
  using assms
proof (induction cs arbitrary: pre)
  case Nil
  then show ?case by simp
next
  case (Cons c cs)
  have "length pre < 2 ^ 32" using Cons.prems by simp
  then have u: "ushr (length pre) 2 = length pre div 4" by (simp add: ushr_small)
  have "parse_loop (c # cs) (length pre) (packBytes pre) =
        parse_loop cs (length (pre @ [of_char c])) (packBytes (pre @ [of_char c]))"
    by (simp add: u of_char_byte packBytes_snoc)
  also have "\<dots> = packBytes ((pre @ [of_char c]) @ map of_char cs)"
    by (rule Cons.IH) (use Cons.prems in simp)
  finally show ?case by simp
qed

lemma parse_eq:
  assumes "length s \<le> 2 ^ 32"
  shows "parse s = \<lparr>words = packBytes (map of_char s), sigBytes = length s\<rparr>"
  using parse_loop_packBytes [of "[]" s] assms
  by (simp add: parse_def WordArray_new_def packBytes_def)

lemma bytesOf_parse:
  assumes "length s \<le> 2 ^ 32"
  shows "bytesOf (parse s) = map of_char s"
  using bytesOf_packBytes [of "map of_char s"] by (simp add: parse_eq [OF assms])

section \<open>The digest of a string\<close>

lemma let_eval: "s = v \<Longrightarrow> f v = r \<Longrightarrow> Let s f = r"
  by simp

lemma rotl32:
  assumes "0 < s" and "s < 32"
  shows "word_rotl s (w :: 32 word) = push_bit s w OR drop_bit (32 - s) w"
proof (rule bit_word_eqI)
  fix n assume n: "n < LENGTH(32)"
  show "bit (word_rotl s w) n = bit (push_bit s w OR drop_bit (32 - s) w) n"
  proof (cases "s \<le> n")
    case True
    then have "(n + 32 - s) mod 32 = n - s" using n by (simp add: mod_if)
    with True n assms show ?thesis by (auto simp: bit_simps dest: bit_imp_le_length)
  next
    case False
    then have "(n + 32 - s) mod 32 = n + 32 - s" "32 - s + n = n + 32 - s" using n assms by auto
    with False n assms show ?thesis by (auto simp: bit_simps)
  qed
qed

lemma replicate_numeral: "replicate (numeral k) x = x # replicate (pred_numeral k) x"
  by (simp add: numeral_eq_Suc)

lemma list_update_numeral: "(x # xs)[numeral k := v] = x # xs[pred_numeral k := v]"
  by (simp add: numeral_eq_Suc)

lemma compress_eq:
  assumes "length blk = 16"
  shows "compress [h0, h1, h2, h3] blk =
         (case computation (h0, h1, h2, h3) (\<lambda>k. swapEndian (blk ! k)) of
            (a, b, c, d) \<Rightarrow> [h0 + a, h1 + b, h2 + c, h3 + d])"
proof -
  have "computation abcd (\<lambda>k. js_get (swapWords 16 0 blk) (0 + k)) =
        computation abcd (\<lambda>k. swapEndian (blk ! k))" for abcd
  proof (rule computation_cong)
    fix k :: nat assume "k < 16"
    then show "js_get (swapWords 16 0 blk) (0 + k) = swapEndian (blk ! k)"
      unfolding js_get_swapWords using assms by (simp add: js_get_def)
  qed
  then show ?thesis
    by (simp add: compress_def doProcessBlock_def Let_def case_prod_beta js_get_def js_set_def)
qed


lemma finalUpdate_hash:
  "hash (finalUpdate m h) = hash h"
  by (simp add: finalUpdate_def)


lemma absorb_1: "absorb 1 H ws = compress H (take 16 ws)"
  by simp

lemma upt_numeral_eval:
  "[i..<numeral n] = (if i < numeral n then i # [Suc i..<numeral n] else [])"
  by (rule upt_rec)


section \<open>Incremental hashing\<close>

lemma absorb_pack_append:
  assumes "length A = 64 * q"
  shows "absorb (q + n) H (packBytes (A @ C)) = absorb n (absorb q H (packBytes A)) (packBytes C)"
proof -
  have l: "length A = 4 * (16 * q)" using assms by simp
  have "length (packBytes A) = 16 * q" using assms by (simp add: length_packBytes)
  then show ?thesis by (simp add: packBytes_append [OF l] absorb_append)
qed

lemma absorb_pack_prefix:
  assumes "length A = 64 * q"
  shows "absorb q H (packBytes (A @ C)) = absorb q H (packBytes A)"
  using absorb_pack_append [OF assms, of 0 H C] by simp

lemma sigBytes_parse: "sigBytes (parse s) = length s"
  by (simp add: parse_def WordArray_new_def)

lemma absorbed_fresh: "absorbed (Hasher_new (BufferedBlockAlgorithm_new 16)) []"
  by (simp add: absorbed_def fresh_hasher packBytes_def)

lemma absorbed_update:
  assumes h: "absorbed h B" and t: "length (msgBytes m) \<le> 2 ^ 32"
  shows "absorbed (update m h) (B @ msgBytes m)"
proof -
  define q where "q = length B div 64"
  define r where "r = drop (64 * q) B"
  define A where "A = take (64 * q) B"
  define dm where "dm = (case m of Str s \<Rightarrow> parse s | WA w \<Rightarrow> w)"
  define t' :: "8 word list" where "t' = msgBytes m"
  define n where "n = (length r + length t') div 64"
  let ?H0 = "[0x67452301, 0xefcdab89, 0x98badcfe, 0x10325476] :: 32 word list"
  have B: "B = A @ r" by (simp add: A_def r_def)
  have lA: "length A = 64 * q" by (simp add: A_def q_def)
  have lB: "length B = 64 * q + length r" using lA by (simp add: B)
  have lr: "length r = length B mod 64"
    by (simp add: r_def q_def minus_mult_div_eq_mod)
  have t'': "t' = bytesOf dm" by (simp add: t'_def msgBytes_def dm_def)
  have lt: "sigBytes dm = length t'" by (simp add: t'' length_bytesOf)
  from h have bs: "blockSize (buffer h) = 16" and mb: "minBufferSize (buffer h) = 0"
    and d0: "data (buffer h) =
       \<lparr>words = packBytes (drop (64 * (length B div 64)) B), sigBytes = length B mod 64\<rparr>"
    and nd: "nDataBytes (buffer h) = length B"
    and hh: "hash h = \<lparr>words = absorb q ?H0 (packBytes B), sigBytes = 16\<rparr>"
    by (simp_all add: absorbed_def q_def)
  have d: "data (buffer h) = \<lparr>words = packBytes r, sigBytes = length r\<rparr>"
    unfolding lr unfolding r_def q_def by (rule d0)
  let ?b1 = "append_data m (buffer h)"
  let ?W = "packBytes (r @ t')"
  have d1: "data ?b1 = \<lparr>words = ?W, sigBytes = length r + length t'\<rparr>"
    by (simp add: append_data_def Let_def concat_wa_def d bytesOf_packBytes dm_def [symmetric]
        t'' [symmetric] lt)
  have nd1: "nDataBytes ?b1 = length B + length t'"
    by (simp add: append_data_def Let_def nd dm_def [symmetric] lt)
  have c1: "blockSize ?b1 = 16" "minBufferSize ?b1 = 0"
    by (simp_all add: append_data_def Let_def bs mb)
  have "length r < 64" by (simp add: lr)
  then have "n < 2 ^ 31" using t by (simp add: n_def t'_def)
  then have nW: "nWordsReady False ?b1 = 16 * n"
    by (simp add: nWordsReady_def c1 d1 n_def [symmetric] toInt32_small)
  have n64: "64 * n \<le> length (r @ t')" by (simp add: n_def)
  then have "16 * n \<le> length ?W" by (simp add: length_packBytes)
  then have pb: "processBlocks 16 (16 * n) 0 (absorb q ?H0 (packBytes B), ?W) =
        (absorb n (absorb q ?H0 (packBytes B)) ?W,
         map swapEndian (take (16 * n) ?W) @ drop (16 * n) ?W)"
    using processBlocks_absorb [of 0 n ?W "absorb q ?H0 (packBytes B)"] by simp
  have l16: "min (length ?W) (16 * n) = 16 * n" using \<open>16 * n \<le> length ?W\<close> by simp
  have m64: "min (64 * n) (length r + length t') = 64 * n" using n64 by simp
  have u: "update m h =
        \<lparr>buffer = ?b1\<lparr>data := \<lparr>words = packBytes (drop (64 * n) (r @ t')),
                                         sigBytes = length r + length t' - 64 * n\<rparr>\<rparr>,
         hash = \<lparr>words = absorb n (absorb q ?H0 (packBytes B)) ?W, sigBytes = 16\<rparr>\<rparr>"
    unfolding update_def
    by (simp add: process_unfold Let_def nW c1 d1 hh pb l16 m64 packBytes_drop [OF n64])
  have q': "(length B + length t') div 64 = q + n"
    by (simp add: lB n_def add.assoc)
  have rest: "drop (64 * (q + n)) (B @ t') = drop (64 * n) (r @ t')"
  proof -
    have "drop (64 * (q + n)) (B @ t') = drop (64 * n) (drop (64 * q) (B @ t'))"
      by (simp only: drop_drop distrib_left add.commute)
    also have "drop (64 * q) (B @ t') = r @ t'" using lA by (simp add: B)
    finally show ?thesis .
  qed
  have sg: "length r + length t' - 64 * n = (length B + length t') mod 64"
  proof -
    have "(length B + length t') mod 64 = (length r + length t') mod 64"
      by (simp add: lB add.assoc)
    also have "\<dots> = length r + length t' - 64 * n"
      unfolding n_def by (simp add: minus_mult_div_eq_mod)
    finally show ?thesis by simp
  qed
  have hashes: "absorb n (absorb q ?H0 (packBytes B)) ?W = absorb (q + n) ?H0 (packBytes (B @ t'))"
  proof -
    have "absorb q ?H0 (packBytes B) = absorb q ?H0 (packBytes A)"
      unfolding B using lA by (rule absorb_pack_prefix)
    moreover have "absorb (q + n) ?H0 (packBytes (A @ (r @ t'))) =
          absorb n (absorb q ?H0 (packBytes A)) ?W"
      using lA by (rule absorb_pack_append)
    ultimately show ?thesis by (simp add: B)
  qed
  have dr: "drop (64 * ((length B + length t') div 64)) (B @ t') = drop (64 * n) (r @ t')"
    using rest by (simp only: q')
  have hs: "absorb ((length B + length t') div 64) ?H0 (packBytes (B @ t')) =
            absorb n (absorb q ?H0 (packBytes B)) ?W"
    using hashes by (simp only: q')
  show ?thesis
    unfolding absorbed_def u t'_def [symmetric]
    by (simp add: c1 nd1 dr sg [symmetric] hs del: drop_append)
qed

lemma absorbed_finalize_rest:
  assumes h: "absorbed h B"
  shows "fst (finalize None h) =
         \<lparr>words = swapWords 4 0
            (absorb ((length B mod 64 + 8) div 64 + 1)
               (absorb (length B div 64) [0x67452301, 0xefcdab89, 0x98badcfe, 0x10325476]
                  (packBytes B))
               (padWords (packBytes (drop (64 * (length B div 64)) B)) (length B mod 64)
                  (length B))),
          sigBytes = 16\<rparr>"
proof -
  let ?H0 = "[0x67452301, 0xefcdab89, 0x98badcfe, 0x10325476] :: 32 word list"
  define q where "q = length B div 64"
  define r where "r = drop (64 * q) B"
  define k where "k = (length r + 8) div 64 + 1"
  have lr: "length r = length B mod 64"
    by (simp add: r_def q_def minus_mult_div_eq_mod)
  from h have bs: "blockSize (buffer h) = 16" and mb: "minBufferSize (buffer h) = 0"
    and d0: "data (buffer h) =
       \<lparr>words = packBytes (drop (64 * (length B div 64)) B), sigBytes = length B mod 64\<rparr>"
    and nd: "nDataBytes (buffer h) = length B"
    and hh: "hash h = \<lparr>words = absorb q ?H0 (packBytes B), sigBytes = 16\<rparr>"
    by (simp_all add: absorbed_def q_def)
  have d: "data (buffer h) = \<lparr>words = packBytes r, sigBytes = length r\<rparr>"
    unfolding lr unfolding r_def q_def by (rule d0)
  have t: "length (words (data (buffer h))) \<le> sigBytes (data (buffer h)) div 4 + 1"
    by (simp add: d length_packBytes)
  have "length r < 64" by (simp add: lr)
  then have b': "sigBytes (data (buffer h)) * 8 + 64 < 2 ^ 32" by (simp add: d)
  define PW where "PW = padWords (packBytes r) (length r) (length B)"
  have lPW: "length PW div 16 = k"
    using length_padWords [OF t b', of "length B"] by (simp add: d PW_def k_def)
  have fin: "fst (finalize None h) =
        \<lparr>words = swapWords 4 0 (absorb k (absorb q ?H0 (packBytes B)) PW), sigBytes = 16\<rparr>"
    unfolding finalize_def finalUpdate_def truthy_def
    by (simp add: doFinalize_eq [OF bs mb t b'] d nd hh PW_def [symmetric] lPW)
  show ?thesis
    unfolding fin unfolding PW_def k_def lr unfolding r_def q_def ..
qed

lemma absorbed_finalize:
  assumes h: "absorbed h B" and b: "length B * 8 + 64 < 2 ^ 32"
  shows "fst (finalize None h) =
         \<lparr>words = swapWords 4 0
            (absorb ((length B + 8) div 64 + 1) [0x67452301, 0xefcdab89, 0x98badcfe, 0x10325476]
               (padWords (packBytes B) (length B) (length B))),
          sigBytes = 16\<rparr>"
proof -
  let ?H0 = "[0x67452301, 0xefcdab89, 0x98badcfe, 0x10325476] :: 32 word list"
  define q where "q = length B div 64"
  define r where "r = drop (64 * q) B"
  define A where "A = take (64 * q) B"
  define k where "k = (length r + 8) div 64 + 1"
  have B: "B = A @ r" by (simp add: A_def r_def)
  have lA: "length A = 64 * q" by (simp add: A_def q_def)
  have lr: "length r = length B mod 64"
    by (simp add: r_def q_def minus_mult_div_eq_mod)
  have lB: "length B = 64 * q + length r" using lA by (simp add: B)
  define PW where "PW = padWords (packBytes r) (length r) (length B)"
  have fin: "fst (finalize None h) =
        \<lparr>words = swapWords 4 0 (absorb k (absorb q ?H0 (packBytes B)) PW), sigBytes = 16\<rparr>"
    unfolding absorbed_finalize_rest [OF h] PW_def k_def lr unfolding r_def q_def ..
  let ?X = "packBytes A"
  have lX: "length ?X = 16 * q" using lA by (simp add: length_packBytes)
  have pB: "packBytes B = ?X @ packBytes r"
    unfolding B by (rule packBytes_append [of _ "16 * q"]) (simp add: lA)
  have "(4 * length ?X + length r) * 8 + 64 < 2 ^ 32" using b by (simp add: lX lB)
  from padWords_append [OF lX this, of "packBytes r" "length B"]
  have pw: "padWords (packBytes B) (length B) (length B) = ?X @ PW"
    by (simp add: pB lX lB [symmetric] PW_def)
  have kk: "(length B + 8) div 64 + 1 = q + k"
    by (simp add: lB k_def add.assoc)
  have "absorb (q + k) ?H0 (?X @ PW) = absorb k (absorb q ?H0 ?X) PW"
    using lX by (rule absorb_append)
  moreover have "absorb q ?H0 (packBytes B) = absorb q ?H0 ?X"
    unfolding pB using lX by (rule absorb_prefix)
  ultimately show ?thesis
    unfolding fin pw kk by simp
qed

lemma msgBytes_Str:
  assumes "length s \<le> 2 ^ 32"
  shows "msgBytes (Str s) = map of_char s"
  by (simp add: msgBytes_def bytesOf_parse [OF assms])

lemma length_msgBytes_Str: "length (msgBytes (Str s)) = length s"
  by (simp add: msgBytes_def length_bytesOf sigBytes_parse)


lemma finalUpdate_msg_data:
  "data (buffer (finalUpdate (Some m) (Hasher_new (BufferedBlockAlgorithm_new bs)))) =
     \<lparr>words = packBytes (msgBytes m), sigBytes = length (msgBytes m)\<rparr> \<and>
   nDataBytes (buffer (finalUpdate (Some m) (Hasher_new (BufferedBlockAlgorithm_new bs)))) =
     length (msgBytes m)"
proof (cases "truthy (Some m)")
  case True
  have e: "bytesOf \<lparr>words = [], sigBytes = 0\<rparr> = []" by (simp add: bytesOf_def)
  show ?thesis
    using True
    by (simp add: finalUpdate_def fresh_hasher append_data_def Let_def concat_wa_def e
        msgBytes_def length_bytesOf)
next
  case False
  then have m: "m = Str []" by (simp add: truthy_def split: message.splits)
  have "msgBytes (Str []) = []"
    by (simp add: msgBytes_def bytesOf_def parse_def WordArray_new_def)
  then show ?thesis
    using False by (simp add: finalUpdate_def fresh_hasher m packBytes_def)
qed

lemma finalize_msg_eq:
  assumes n: "length (msgBytes m) = n" and "n * 8 + 64 < 2 ^ 32"
  shows "fst (finalize (Some m) (Hasher_new (BufferedBlockAlgorithm_new 16))) =
         \<lparr>words = swapWords 4 0
            (absorb ((n + 8) div 64 + 1) [0x67452301, 0xefcdab89, 0x98badcfe, 0x10325476]
               (padWords (packBytes (msgBytes m)) n n)),
          sigBytes = 16\<rparr>"
proof -
  let ?h = "finalUpdate (Some m) (Hasher_new (BufferedBlockAlgorithm_new 16))"
  have d: "data (buffer ?h) = \<lparr>words = packBytes (msgBytes m), sigBytes = n\<rparr>"
    and nd: "nDataBytes (buffer ?h) = n"
    using finalUpdate_msg_data [of m 16] by (simp_all add: n)
  have c: "blockSize (buffer ?h) = 16" "minBufferSize (buffer ?h) = 0"
    by (simp_all add: finalUpdate_config fresh_hasher)
  have t: "length (words (data (buffer ?h))) \<le> sigBytes (data (buffer ?h)) div 4 + 1"
    by (simp add: d length_packBytes n)
  have b: "sigBytes (data (buffer ?h)) * 8 + 64 < 2 ^ 32" using assms(2) by (simp add: d)
  have len: "length (padWords (packBytes (msgBytes m)) n n) div 16 = (n + 8) div 64 + 1"
    using length_padWords [OF t b] by (simp add: d)
  have hh: "hash ?h = \<lparr>words = [0x67452301, 0xefcdab89, 0x98badcfe, 0x10325476], sigBytes = 16\<rparr>"
    by (simp add: finalUpdate_hash fresh_hasher)
  show ?thesis
    unfolding finalize_def doFinalize_eq [OF c t b]
    by (simp add: d nd len hh del: One_nat_def)
qed

text \<open>
  Below \<open>2 ^ 29 - 8\<close> bytes, where the 32-bit shifts of \<open>doFinalize\<close> are exact:
  whatever messages (strings or WordArrays) carry the bytes, two updates and a final
  call without a message return the digest of one final call with the whole message.
\<close>

lemma incremental_equivalence:
  assumes s: "msgBytes m = msgBytes m1 @ msgBytes m2"
    and b: "length (msgBytes m) < 2 ^ 29 - 8"
  shows "fst (finalize None (update m2 (update m1 (Hasher_new (BufferedBlockAlgorithm_new 16))))) =
         fst (finalize (Some m) (Hasher_new (BufferedBlockAlgorithm_new 16)))"
proof -
  have l1: "length (msgBytes m1) \<le> 2 ^ 32" and l2: "length (msgBytes m2) \<le> 2 ^ 32"
    and b': "length (msgBytes m) * 8 + 64 < 2 ^ 32"
    using b by (simp_all add: s)
  have "absorbed (update m2 (update m1 (Hasher_new (BufferedBlockAlgorithm_new 16))))
          (([] @ msgBytes m1) @ msgBytes m2)"
    by (intro absorbed_update absorbed_fresh l1 l2)
  then have a: "absorbed (update m2 (update m1 (Hasher_new (BufferedBlockAlgorithm_new 16))))
          (msgBytes m)"
    by (simp add: s)
  show ?thesis
    unfolding absorbed_finalize [OF a b'] finalize_msg_eq [OF refl b'] ..
qed

lemma incremental_equivalence_witness:
  "msgBytes (Str ''abc'') = msgBytes (WA \<lparr>words = [0x61620000], sigBytes = 2\<rparr>) @ msgBytes (Str ''c'') \<and>
   length (msgBytes (Str ''abc'')) < 2 ^ 29 - 8 \<and>
   fst (finalize None (update (Str ''c'') (update (WA \<lparr>words = [0x61620000], sigBytes = 2\<rparr>)
          (Hasher_new (BufferedBlockAlgorithm_new 16))))) =
   fst (finalize (Some (Str ''abc'')) (Hasher_new (BufferedBlockAlgorithm_new 16)))"
proof -
  have m: "msgBytes (Str ''abc'') = msgBytes (WA \<lparr>words = [0x61620000], sigBytes = 2\<rparr>) @ msgBytes (Str ''c'')"
    by (simp add: msgBytes_Str) (simp add: msgBytes_def bytesOf_def byteAt_def js_get_def upt_numeral_eval)
  have l: "length (msgBytes (Str ''abc'')) < 2 ^ 29 - 8" by (simp add: length_msgBytes_Str)
  from m l incremental_equivalence [OF m l] show ?thesis by blast
qed

section \<open>One final call on \<open>2 ^ 29 - 8\<close> bytes and more\<close>

text \<open>The words of a WordArray that is full to its last word are the packing of its bytes.\<close>

lemma fromBytes_split:
  "fromBytes (ucast (drop_bit 24 x)) (ucast (drop_bit 16 x)) (ucast (drop_bit 8 x)) (ucast x) = (x :: 32 word)"
  unfolding fromBytes_def
proof (rule bit_word_eqI)
  fix n assume "n < LENGTH(32)"
  then have n: "n < 32" by simp
  consider "n < 8" | "8 \<le> n" "n < 16" | "16 \<le> n" "n < 24" | "24 \<le> n" "n < 32"
    using n by linarith
  then show "bit (push_bit 24 (ucast (ucast (drop_bit 24 x) :: 8 word)) OR
          push_bit 16 (ucast (ucast (drop_bit 16 x) :: 8 word)) OR
          push_bit 8 (ucast (ucast (drop_bit 8 x) :: 8 word)) OR ucast (ucast x :: 8 word) :: 32 word) n = bit x n"
    by cases (auto simp add: bit_simps)
qed

lemma packBytes_bytesOf_words:
  "packBytes (bytesOf \<lparr>words = ws, sigBytes = 4 * length ws\<rparr>) = ws"
proof (rule nth_equalityI)
  show l: "length (packBytes (bytesOf \<lparr>words = ws, sigBytes = 4 * length ws\<rparr>)) = length ws"
    by (simp add: length_packBytes length_bytesOf)
  fix k assume "k < length (packBytes (bytesOf \<lparr>words = ws, sigBytes = 4 * length ws\<rparr>))"
  then have k: "k < length ws" by (simp only: l)
  have b: "byteOrZero (bytesOf \<lparr>words = ws, sigBytes = 4 * length ws\<rparr>) (4 * k + j) =
           ucast (drop_bit (24 - 8 * j) (ws ! k))" if "j < 4" for j
    using that k by (simp add: byteOrZero_def bytesOf_def byteAt_def js_get_def)
  have "packBytes (bytesOf \<lparr>words = ws, sigBytes = 4 * length ws\<rparr>) ! k =
        wordOfBytes (bytesOf \<lparr>words = ws, sigBytes = 4 * length ws\<rparr>) k"
    using k by (simp add: packBytes_def length_bytesOf)
  also have "\<dots> = ws ! k"
    unfolding wordOfBytes_def using b [of 0] b [of 1] b [of 2] b [of 3]
    by (simp add: fromBytes_split)
  finally show "packBytes (bytesOf \<lparr>words = ws, sigBytes = 4 * length ws\<rparr>) ! k = ws ! k" .
qed

text \<open>
  The block loop reads the data words through reads that take a hole as 0, so the hash
  it leaves is the same on an array and on that array with zeros after it.
\<close>

lemma doProcessBlock_ext:
  assumes "\<And>j. js_get M j = js_get M' j"
  shows "fst (doProcessBlock H M offset) = fst (doProcessBlock H M' offset)"
    and "js_get (snd (doProcessBlock H M offset)) j = js_get (snd (doProcessBlock H M' offset)) j"
proof -
  have e: "js_get (swapWords 16 offset M) i = js_get (swapWords 16 offset M') i" for i
    by (simp add: js_get_swapWords assms)
  have "computation abcd (\<lambda>k. js_get (swapWords 16 offset M) (offset + k)) =
        computation abcd (\<lambda>k. js_get (swapWords 16 offset M') (offset + k))" for abcd
    by (rule computation_cong) (rule e)
  then show "fst (doProcessBlock H M offset) = fst (doProcessBlock H M' offset)"
    by (simp add: doProcessBlock_def Let_def case_prod_beta)
  show "js_get (snd (doProcessBlock H M offset)) j = js_get (snd (doProcessBlock H M' offset)) j"
    by (simp add: snd_doProcessBlock e)
qed

lemma processBlocks_ext:
  assumes "\<And>j. js_get M j = js_get M' j"
  shows "fst (processBlocks bs n offset (H, M)) = fst (processBlocks bs n offset (H, M'))"
  using assms
proof (induction "n - offset" arbitrary: offset H M M' rule: less_induct)
  case less
  show ?case
  proof (cases "offset < n \<and> 0 < bs")
    case True
    let ?P = "doProcessBlock H M offset" and ?P' = "doProcessBlock H M' offset"
    have f: "fst ?P = fst ?P'" by (rule doProcessBlock_ext(1)) (rule less.prems)
    have g: "js_get (snd ?P) j = js_get (snd ?P') j" for j
      by (rule doProcessBlock_ext(2)) (rule less.prems)
    have IH: "fst (processBlocks bs n (offset + bs) (fst ?P, snd ?P)) =
          fst (processBlocks bs n (offset + bs) (fst ?P, snd ?P'))"
      by (rule less.hyps) (use True g in auto)
    have e: "(fst ?P, snd ?P') = ?P'" by (simp add: f)
    have "fst (processBlocks bs n (offset + bs) ?P) = fst (processBlocks bs n (offset + bs) ?P')"
      using IH unfolding e by simp
    then show ?thesis
      using True by (subst (1 2) processBlocks.simps) simp
  next
    case False
    have "processBlocks bs n offset HM = HM" for HM
      using False by (subst processBlocks.simps) auto
    then show ?thesis by simp
  qed
qed

text \<open>
  With \<open>536870904 = 2 ^ 29 - 8\<close> bytes buffered, \<open>nBitsLeft + 64\<close> is \<open>2 ^ 32\<close> and
  \<open>(nBitsLeft + 64) >>> 9\<close> is 0: the two length words go to the indices 14 and 15,
  and the array grows by the one word of the \<open>0x80\<close> byte.
\<close>

lemma padWords_wrap:
  assumes l: "length ws = 134217726" and w14: "ws ! 14 = 0xC0FFFFFF" and w15: "ws ! 15 = 0"
  shows "padWords ws 536870904 536870904 = ws @ [0x80000000]"
proof -
  have i0: "ushr (536870904 * 8) 5 = 134217726" by (simp add: ushr_def)
  have i1: "ushr (536870904 * 8 + 64) 9 = 0" by (simp add: ushr_def)
  have s0: "js_set ws 134217726 (js_get ws 134217726 OR push_bit (24 - 536870904 * 8 mod 32) 0x80)
            = ws @ [0x80000000]"
    by (simp add: js_set_def js_get_def l)
  have v15: "swapEndian (of_nat (536870904 * 8 div 0x100000000)) = 0"
    by (simp add: swapEndian_def)
  have v14: "swapEndian (of_nat (536870904 * 8)) = 0xC0FFFFFF"
    by (simp add: swapEndian_def)
  have s15: "js_set (ws @ [0x80000000]) 15 0 = ws @ [0x80000000]"
    using w15 by (simp add: js_set_def l list_update_append list_update_same_conv)
  have s14: "js_set (ws @ [0x80000000]) 14 0xC0FFFFFF = ws @ [0x80000000]"
    using w14 by (simp add: js_set_def l list_update_append list_update_same_conv)
  show ?thesis
    unfolding padWords_def i0 i1 s0 v15 v14 by (simp add: s15 s14)
qed

text \<open>
  The digest of the one call, and the digest after \<open>update\<close>, for a WordArray of
  \<open>2 ^ 29 - 8\<close> bytes whose words 14 and 15 hold what \<open>doFinalize\<close> writes there.
\<close>

lemma finalize_WA_wrap:
  assumes l: "length ws = 134217726" and w14: "ws ! 14 = 0xC0FFFFFF" and w15: "ws ! 15 = 0"
  shows "fst (finalize (Some (WA \<lparr>words = ws, sigBytes = 536870904\<rparr>))
                (Hasher_new (BufferedBlockAlgorithm_new 16))) =
         \<lparr>words = swapWords 4 0
            (absorb 8388608 [0x67452301, 0xefcdab89, 0x98badcfe, 0x10325476]
               (ws @ [0x80000000, 0])),
          sigBytes = 16\<rparr>"
proof -
  let ?H0 = "[0x67452301, 0xefcdab89, 0x98badcfe, 0x10325476] :: 32 word list"
  let ?m = "WA \<lparr>words = ws, sigBytes = 536870904\<rparr>"
  let ?h = "finalUpdate (Some ?m) (Hasher_new (BufferedBlockAlgorithm_new 16))"
  have sz: "(536870904 :: nat) = 4 * length ws" by (simp add: l)
  have pk: "packBytes (msgBytes ?m) = ws"
    unfolding msgBytes_def sz by (simp add: packBytes_bytesOf_words)
  have lm: "length (msgBytes ?m) = 536870904" by (simp add: msgBytes_def length_bytesOf)
  have d: "data (buffer ?h) = \<lparr>words = ws, sigBytes = 536870904\<rparr>"
    and nd: "nDataBytes (buffer ?h) = 536870904"
    using finalUpdate_msg_data [of ?m 16] by (simp_all only: pk lm)
  have c: "blockSize (buffer ?h) = 16" "minBufferSize (buffer ?h) = 0"
    by (simp_all add: finalUpdate_config fresh_hasher)
  have hh: "hash ?h = \<lparr>words = ?H0, sigBytes = 16\<rparr>"
    by (simp add: finalUpdate_hash fresh_hasher)
  have pw: "padWords (words (data (buffer ?h))) (sigBytes (data (buffer ?h))) (nDataBytes (buffer ?h))
            = ws @ [0x80000000]"
    unfolding d nd by (simp add: padWords_wrap [OF l w14 w15])
  have da: "data (buffer (addPadding ?h)) = \<lparr>words = ws @ [0x80000000], sigBytes = 536870912\<rparr>"
    unfolding addPadding_eq pw by (simp add: l)
  have ca: "blockSize (buffer (addPadding ?h)) = 16" "minBufferSize (buffer (addPadding ?h)) = 0"
    unfolding addPadding_eq by (simp_all add: c)
  have ha: "hash (addPadding ?h) = \<lparr>words = ?H0, sigBytes = 16\<rparr>"
    unfolding addPadding_eq by (simp add: hh)
  have nW: "nWordsReady False (buffer (addPadding ?h)) = 134217728"
    by (simp add: nWordsReady_def da ca toInt32_def)
  have ext: "js_get (ws @ [0x80000000]) j = js_get (ws @ [0x80000000, 0]) j" for j
    by (simp add: js_get_def nth_append less_Suc_eq)
  have "fst (processBlocks 16 134217728 0 (?H0, ws @ [0x80000000])) =
        fst (processBlocks 16 134217728 0 (?H0, ws @ [0x80000000, 0]))"
    by (rule processBlocks_ext) (rule ext)
  also have "\<dots> = absorb 8388608 ?H0 (ws @ [0x80000000, 0])"
    using processBlocks_absorb [of 0 8388608 "ws @ [0x80000000, 0]" ?H0] by (simp add: l)
  finally have pb: "fst (processBlocks 16 134217728 0 (?H0, ws @ [0x80000000])) =
        absorb 8388608 ?H0 (ws @ [0x80000000, 0])" .
  show ?thesis
    unfolding finalize_def doFinalize_def
    by (simp add: Let_def process_unfold nW ca da ha pb)
qed

lemma pad_rest_wrap:
  "padWords [0, 0, 0, 0, 0, 0, 0, 0, 0, 0, 0, 0, 0, 0] 56 536870904 =
   [0, 0, 0, 0, 0, 0, 0, 0, 0, 0, 0, 0, 0, 0, 0x80000000, 0,
    0, 0, 0, 0, 0, 0, 0, 0, 0, 0, 0, 0, 0, 0, 0xC0FFFFFF, 0]"
  by (simp add: padWords_def ushr_def js_set_def js_get_def swapEndian_def replicate_numeral
      list_update_numeral)

lemma update_finalize_WA_wrap:
  assumes l: "length ws = 134217726"
    and tl: "drop 134217712 ws = [0, 0, 0, 0, 0, 0, 0, 0, 0, 0, 0, 0, 0, 0]"
  shows "fst (finalize None (update (Str []) (update (WA \<lparr>words = ws, sigBytes = 536870904\<rparr>)
                (Hasher_new (BufferedBlockAlgorithm_new 16))))) =
         \<lparr>words = swapWords 4 0
            (compress
               (absorb 8388608 [0x67452301, 0xefcdab89, 0x98badcfe, 0x10325476]
                  (ws @ [0x80000000, 0]))
               [0, 0, 0, 0, 0, 0, 0, 0, 0, 0, 0, 0, 0, 0, 0xC0FFFFFF, 0]),
          sigBytes = 16\<rparr>"
proof -
  let ?H0 = "[0x67452301, 0xefcdab89, 0x98badcfe, 0x10325476] :: 32 word list"
  let ?m = "WA \<lparr>words = ws, sigBytes = 536870904\<rparr>"
  let ?A = "[0, 0, 0, 0, 0, 0, 0, 0, 0, 0, 0, 0, 0, 0, 0x80000000, 0] :: 32 word list"
  let ?L = "[0, 0, 0, 0, 0, 0, 0, 0, 0, 0, 0, 0, 0, 0, 0xC0FFFFFF, 0] :: 32 word list"
  define B where "B = msgBytes ?m"
  define Hq where "Hq = absorb 8388607 ?H0 ws"
  have sz: "(536870904 :: nat) = 4 * length ws" by (simp add: l)
  have pk: "packBytes B = ws"
    unfolding B_def msgBytes_def sz by (simp add: packBytes_bytesOf_words)
  have lB: "length B = 536870904" by (simp add: B_def msgBytes_def length_bytesOf)
  have e: "msgBytes (Str []) = []" by (simp add: msgBytes_Str)
  have "absorbed (update (Str []) (update ?m (Hasher_new (BufferedBlockAlgorithm_new 16))))
          (([] @ msgBytes ?m) @ msgBytes (Str []))"
    by (intro absorbed_update absorbed_fresh) (simp_all add: e lB [unfolded B_def])
  then have a: "absorbed (update (Str []) (update ?m (Hasher_new (BufferedBlockAlgorithm_new 16)))) B"
    by (simp add: e B_def)
  have q: "length B div 64 = 8388607" and r: "length B mod 64 = 56" by (simp_all add: lB)
  have "packBytes (drop (64 * 8388607) B) = drop (16 * 8388607) (packBytes B)"
    by (rule packBytes_drop [symmetric]) (simp add: lB)
  then have pr: "packBytes (drop 536870848 B) = [0, 0, 0, 0, 0, 0, 0, 0, 0, 0, 0, 0, 0, 0]"
    by (simp add: pk tl)
  have fin: "fst (finalize None (update (Str []) (update ?m (Hasher_new (BufferedBlockAlgorithm_new 16))))) =
        \<lparr>words = swapWords 4 0 (compress (compress Hq ?A) ?L), sigBytes = 16\<rparr>"
    unfolding absorbed_finalize_rest [OF a] q r
    by (simp add: pr lB pk pad_rest_wrap Hq_def)
  have ws: "ws = take 134217712 ws @ [0, 0, 0, 0, 0, 0, 0, 0, 0, 0, 0, 0, 0, 0]"
    using append_take_drop_id [of 134217712 ws] by (simp only: tl)
  have lt: "length (take 134217712 ws) = 16 * 8388607" by (simp add: l)
  have "absorb (8388607 + 1) ?H0 (take 134217712 ws @ ?A) =
        absorb 1 (absorb 8388607 ?H0 (take 134217712 ws)) ?A"
    using lt by (rule absorb_append)
  moreover have "absorb 8388607 ?H0 (take 134217712 ws @ [0, 0, 0, 0, 0, 0, 0, 0, 0, 0, 0, 0, 0, 0]) =
        absorb 8388607 ?H0 (take 134217712 ws)"
    using lt by (rule absorb_prefix)
  then have "absorb 8388607 ?H0 (take 134217712 ws) = Hq"
    unfolding Hq_def using ws by simp
  moreover have "take 134217712 ws @ ?A = ws @ [0x80000000, 0]"
    by (subst (2) ws) simp
  ultimately have X: "absorb 8388608 ?H0 (ws @ [0x80000000, 0]) = compress Hq ?A"
    by simp
  show ?thesis unfolding fin X ..
qed

text \<open>
  At \<open>2 ^ 29 - 8\<close> bytes, the first size at which the shifts wrap: the one call
  returns the hash after the block of the \<open>0x80\<close> byte, the calls through \<open>update\<close>
  the hash after one more block, the block of the length.
\<close>

lemma finalize_at_first_wrap:
  "fst (finalize (Some (WA \<lparr>words = replicate 14 0 @ [0xC0FFFFFF, 0] @ replicate 134217710 0,
                            sigBytes = 536870904\<rparr>))
          (Hasher_new (BufferedBlockAlgorithm_new 16))) =
     \<lparr>words = swapWords 4 0
        (absorb 8388608 [0x67452301, 0xefcdab89, 0x98badcfe, 0x10325476]
           ((replicate 14 0 @ [0xC0FFFFFF, 0] @ replicate 134217710 0) @ [0x80000000, 0])),
      sigBytes = 16\<rparr> \<and>
   fst (finalize None (update (Str [])
          (update (WA \<lparr>words = replicate 14 0 @ [0xC0FFFFFF, 0] @ replicate 134217710 0,
                       sigBytes = 536870904\<rparr>)
             (Hasher_new (BufferedBlockAlgorithm_new 16))))) =
     \<lparr>words = swapWords 4 0
        (compress
           (absorb 8388608 [0x67452301, 0xefcdab89, 0x98badcfe, 0x10325476]
              ((replicate 14 0 @ [0xC0FFFFFF, 0] @ replicate 134217710 0) @ [0x80000000, 0]))
           [0, 0, 0, 0, 0, 0, 0, 0, 0, 0, 0, 0, 0, 0, 0xC0FFFFFF, 0]),
      sigBytes = 16\<rparr>"
proof -
  define ws :: "32 word list" where
    "ws = replicate 14 0 @ [0xC0FFFFFF, 0] @ replicate 134217710 0"
  have l: "length ws = 134217726" by (simp add: ws_def)
  have w14: "ws ! 14 = 0xC0FFFFFF" and w15: "ws ! 15 = 0"
    by (simp_all add: ws_def nth_append)
  have z: "replicate 14 (0 :: 32 word) = [0, 0, 0, 0, 0, 0, 0, 0, 0, 0, 0, 0, 0, 0]"
    by (simp add: replicate_numeral)
  have "drop 134217712 ws = replicate 14 0" by (simp add: ws_def)
  then have tl: "drop 134217712 ws = [0, 0, 0, 0, 0, 0, 0, 0, 0, 0, 0, 0, 0, 0]"
    by (simp only: z)
  show ?thesis
    unfolding ws_def [symmetric]
    using finalize_WA_wrap [OF l w14 w15] update_finalize_WA_wrap [OF l tl] by (rule conjI)
qed

section \<open>The fixed point of the transform on a block\<close>

text \<open>
  Each of the 64 steps replaces one working variable by a value from which, given the
  other three, the old one can be recovered (addition and rotation are invertible). So
  the steps are injective in the four variables they start from, and a block has at most
  one hash that the transform leaves as it is.
\<close>

lemma word_rotl_inj: "word_rotl s (x :: 32 word) = word_rotl s y \<Longrightarrow> x = y"
  by (metis word_rot_lr)

lemma FF_inj: "FF x y z w m s t = FF x' y z w m s t \<Longrightarrow> x = x'"
  by (auto simp add: FF_def dest: word_rotl_inj)

lemma GG_inj: "GG x y z w m s t = GG x' y z w m s t \<Longrightarrow> x = x'"
  by (auto simp add: GG_def dest: word_rotl_inj)

lemma HH_inj: "HH x y z w m s t = HH x' y z w m s t \<Longrightarrow> x = x'"
  by (auto simp add: HH_def dest: word_rotl_inj)

lemma II_inj: "II x y z w m s t = II x' y z w m s t \<Longrightarrow> x = x'"
  by (auto simp add: II_def dest: word_rotl_inj)

lemma FF_step:
  assumes "\<And>v v'. R v = R' v' \<longrightarrow> w = w' \<and> v = v' \<and> y = y' \<and> z = z'"
  shows "Let (FF x y z w m s t) R = Let (FF x' y' z' w' m s t) R' \<longrightarrow>
         x = x' \<and> y = y' \<and> z = z' \<and> w = w'"
  using assms [of "FF x y z w m s t" "FF x' y' z' w' m s t"] by (auto simp add: Let_def dest: FF_inj)

lemma GG_step:
  assumes "\<And>v v'. R v = R' v' \<longrightarrow> w = w' \<and> v = v' \<and> y = y' \<and> z = z'"
  shows "Let (GG x y z w m s t) R = Let (GG x' y' z' w' m s t) R' \<longrightarrow>
         x = x' \<and> y = y' \<and> z = z' \<and> w = w'"
  using assms [of "GG x y z w m s t" "GG x' y' z' w' m s t"] by (auto simp add: Let_def dest: GG_inj)

lemma HH_step:
  assumes "\<And>v v'. R v = R' v' \<longrightarrow> w = w' \<and> v = v' \<and> y = y' \<and> z = z'"
  shows "Let (HH x y z w m s t) R = Let (HH x' y' z' w' m s t) R' \<longrightarrow>
         x = x' \<and> y = y' \<and> z = z' \<and> w = w'"
  using assms [of "HH x y z w m s t" "HH x' y' z' w' m s t"] by (auto simp add: Let_def dest: HH_inj)

lemma II_step:
  assumes "\<And>v v'. R v = R' v' \<longrightarrow> w = w' \<and> v = v' \<and> y = y' \<and> z = z'"
  shows "Let (II x y z w m s t) R = Let (II x' y' z' w' m s t) R' \<longrightarrow>
         x = x' \<and> y = y' \<and> z = z' \<and> w = w'"
  using assms [of "II x y z w m s t" "II x' y' z' w' m s t"] by (auto simp add: Let_def dest: II_inj)

lemma computation_inj:
  "computation (a, b, c, d) X = computation (a', b', c', d') X \<longrightarrow>
   a = a' \<and> b = b' \<and> c = c' \<and> d = d'"
proof -
  have LX: "Let (X k) f = f (X k)" for k and f :: "32 word \<Rightarrow> 32 word \<times> 32 word \<times> 32 word \<times> 32 word"
    by simp
  show ?thesis
    unfolding computation_def
    apply (simp only: Let_def [of "(a, b, c, d)"] Let_def [of "(a', b', c', d')"] split_conv LX)
    apply (rule FF_step GG_step HH_step II_step)+
    apply simp
    done
qed

lemma mask_lo: "(0x00ff00ff :: 32 word) = mask 8 OR push_bit 16 (mask 8)"
  by (simp add: mask_eq_exp_minus_1 push_bit_eq_mult)

lemma mask_hi: "(0xff00ff00 :: 32 word) = push_bit 8 (mask 8) OR push_bit 24 (mask 8)"
  by (simp add: mask_eq_exp_minus_1 push_bit_eq_mult)

lemma bit_swapEndian:
  assumes "n < 32"
  shows "bit (swapEndian x) n =
         bit x (if n < 8 then n + 24 else if n < 16 then n + 8 else if n < 24 then n - 8 else n - 24)"
proof -
  consider "n < 8" | "8 \<le> n" "n < 16" | "16 \<le> n" "n < 24" | "24 \<le> n" "n < 32"
    using assms by linarith
  then show ?thesis
    unfolding swapEndian_def mask_lo mask_hi
    by cases (auto simp add: bit_simps add.commute dest: bit_imp_le_length)
qed

lemma swapEndian_swapEndian: "swapEndian (swapEndian x) = x"
proof (rule bit_word_eqI)
  fix n assume "n < LENGTH(32)"
  then have n: "n < 32" by simp
  consider "n < 8" | "8 \<le> n" "n < 16" | "16 \<le> n" "n < 24" | "24 \<le> n" "n < 32"
    using n by linarith
  then show "bit (swapEndian (swapEndian x)) n = bit x n"
  proof cases
    case 1
    then have "bit (swapEndian (swapEndian x)) n = bit (swapEndian x) (n + 24)"
      by (simp add: bit_swapEndian)
    also have "\<dots> = bit x (n + 24 - 24)"
      using 1 by (subst bit_swapEndian) simp_all
    finally show ?thesis by simp
  next
    case 2
    then have "bit (swapEndian (swapEndian x)) n = bit (swapEndian x) (n + 8)"
      by (simp add: bit_swapEndian)
    also have "\<dots> = bit x (n + 8 - 8)"
      using 2 by (subst bit_swapEndian) simp_all
    finally show ?thesis by simp
  next
    case 3
    then have "bit (swapEndian (swapEndian x)) n = bit (swapEndian x) (n - 8)"
      by (simp add: bit_swapEndian)
    also have "\<dots> = bit x (n - 8 + 8)"
      using 3 by (subst bit_swapEndian) auto
    finally show ?thesis using 3 by simp
  next
    case 4
    then have "bit (swapEndian (swapEndian x)) n = bit (swapEndian x) (n - 24)"
      by (simp add: bit_swapEndian)
    also have "\<dots> = bit x (n - 24 + 24)"
      using 4 by (subst bit_swapEndian) auto
    finally show ?thesis using 4 by simp
  qed
qed

lemma swapWords_inj:
  assumes l: "length A = length B" and e: "swapWords n p A = swapWords n p B"
  shows "A = B"
proof (rule js_array_eqI [OF l])
  fix j
  have "js_get (swapWords n p A) j = js_get (swapWords n p B) j" by (simp only: e)
  then have "swapEndian (js_get A j) = swapEndian (js_get B j) \<or> js_get A j = js_get B j"
    by (simp add: js_get_swapWords split: if_splits)
  then show "js_get A j = js_get B j"
    by (metis swapEndian_swapEndian)
qed

lemma length_compress: "length (compress H blk) = max (length H) 4"
  by (simp add: compress_def length_fst_doProcessBlock)

lemma length_absorb: "length H = 4 \<Longrightarrow> length (absorb n H ws) = 4"
  by (induction n arbitrary: H ws) (simp_all add: length_compress)


lemma list4: "length (A :: 'a list) = 4 \<Longrightarrow> \<exists>a b c d. A = [a, b, c, d]"
  by (auto simp add: eval_nat_numeral length_Suc_conv)

lemma compress_fixed_unique:
  assumes blk: "length blk = 16" and f: "compress [f0, f1, f2, f3] blk = [f0, f1, f2, f3]"
    and l: "length A = 4" and a: "compress A blk = A"
  shows "A = [f0, f1, f2, f3]"
proof -
  obtain a0 a1 a2 a3 where A: "A = [a0, a1, a2, a3]" using list4 [OF l] by blast
  let ?X = "\<lambda>k. swapEndian (blk ! k)"
  have "computation (a0, a1, a2, a3) ?X = (0, 0, 0, 0)"
    using a unfolding A compress_eq [OF blk] by (auto split: prod.splits)
  moreover have "computation (f0, f1, f2, f3) ?X = (0, 0, 0, 0)"
    using f unfolding compress_eq [OF blk] by (auto split: prod.splits)
  ultimately have "computation (a0, a1, a2, a3) ?X = computation (f0, f1, f2, f3) ?X" by simp
  then show ?thesis using computation_inj [of a0 a1 a2 a3 ?X f0 f1 f2 f3] by (simp add: A)
qed

lemma finalize_WA_full:
  assumes l: "length ws = 16 * k" and k: "k < 2 ^ 31"
    and p: "padWords ws (64 * k) (64 * k) = ws"
  shows "fst (finalize (Some (WA \<lparr>words = ws, sigBytes = 64 * k\<rparr>))
                (Hasher_new (BufferedBlockAlgorithm_new 16))) =
         \<lparr>words = swapWords 4 0 (absorb k [0x67452301, 0xefcdab89, 0x98badcfe, 0x10325476] ws), sigBytes = 16\<rparr>"
proof -
  let ?H0 = "[0x67452301, 0xefcdab89, 0x98badcfe, 0x10325476] :: 32 word list"
  let ?m = "WA \<lparr>words = ws, sigBytes = 64 * k\<rparr>"
  let ?h = "finalUpdate (Some ?m) (Hasher_new (BufferedBlockAlgorithm_new 16))"
  have sz: "64 * k = 4 * length ws" by (simp add: l)
  have pk: "packBytes (msgBytes ?m) = ws"
    unfolding msgBytes_def sz by (simp add: packBytes_bytesOf_words)
  have lm: "length (msgBytes ?m) = 64 * k" by (simp add: msgBytes_def length_bytesOf)
  have d: "data (buffer ?h) = \<lparr>words = ws, sigBytes = 64 * k\<rparr>"
    and nd: "nDataBytes (buffer ?h) = 64 * k"
    using finalUpdate_msg_data [of ?m 16] by (simp_all only: pk lm)
  have c: "blockSize (buffer ?h) = 16" "minBufferSize (buffer ?h) = 0"
    by (simp_all add: finalUpdate_config fresh_hasher)
  have hh: "hash ?h = \<lparr>words = ?H0, sigBytes = 16\<rparr>"
    by (simp add: finalUpdate_hash fresh_hasher)
  have pw: "padWords (words (data (buffer ?h))) (sigBytes (data (buffer ?h))) (nDataBytes (buffer ?h))
            = ws"
    unfolding d nd by (simp add: p)
  have da: "data (buffer (addPadding ?h)) = \<lparr>words = ws, sigBytes = 64 * k + 4\<rparr>"
    unfolding addPadding_eq pw by (simp add: l)
  have ca: "blockSize (buffer (addPadding ?h)) = 16" "minBufferSize (buffer (addPadding ?h)) = 0"
    unfolding addPadding_eq by (simp_all add: c)
  have ha: "hash (addPadding ?h) = \<lparr>words = ?H0, sigBytes = 16\<rparr>"
    unfolding addPadding_eq by (simp add: hh)
  have "(64 * k + 4) div 64 = k" by simp
  then have nW: "nWordsReady False (buffer (addPadding ?h)) = 16 * k"
    using k by (simp add: nWordsReady_def da ca toInt32_small)
  have pb: "fst (processBlocks 16 (16 * k) 0 (?H0, ws)) = absorb k ?H0 ws"
    using processBlocks_absorb [of 0 k ws ?H0] by (simp add: l)
  show ?thesis
    unfolding finalize_def doFinalize_def
    by (simp add: Let_def process_unfold nW ca da ha pb)
qed

lemma update_finalize_WA_full:
  assumes l: "length ws = 16 * k" and k: "64 * k \<le> 2 ^ 32"
  shows "fst (finalize None (update (Str []) (update (WA \<lparr>words = ws, sigBytes = 64 * k\<rparr>)
                (Hasher_new (BufferedBlockAlgorithm_new 16))))) =
         \<lparr>words = swapWords 4 0 (compress (absorb k [0x67452301, 0xefcdab89, 0x98badcfe, 0x10325476] ws) (padWords [] 0 (64 * k))),
          sigBytes = 16\<rparr>"
proof -
  let ?H0 = "[0x67452301, 0xefcdab89, 0x98badcfe, 0x10325476] :: 32 word list"
  let ?m = "WA \<lparr>words = ws, sigBytes = 64 * k\<rparr>"
  define B where "B = msgBytes ?m"
  have sz: "64 * k = 4 * length ws" by (simp add: l)
  have pk: "packBytes B = ws"
    unfolding B_def msgBytes_def sz by (simp add: packBytes_bytesOf_words)
  have lB: "length B = 64 * k" by (simp add: B_def msgBytes_def length_bytesOf)
  have e: "msgBytes (Str []) = []" by (simp add: msgBytes_Str)
  have "absorbed (update (Str []) (update ?m (Hasher_new (BufferedBlockAlgorithm_new 16))))
          (([] @ msgBytes ?m) @ msgBytes (Str []))"
    by (intro absorbed_update absorbed_fresh) (use k in \<open>simp_all add: e lB [unfolded B_def]\<close>)
  then have a: "absorbed (update (Str []) (update ?m (Hasher_new (BufferedBlockAlgorithm_new 16)))) B"
    by (simp add: e B_def)
  have q: "length B div 64 = k" and r: "length B mod 64 = 0" by (simp_all add: lB)
  have pr: "packBytes [] = []" by (simp add: packBytes_def)
  have "length (padWords [] 0 (64 * k)) = 16 * ((0 + 8) div 64 + 1)"
    by (rule length_padWords) simp_all
  then have tk: "take 16 (padWords [] 0 (64 * k)) = padWords [] 0 (64 * k)" by simp
  show ?thesis
    unfolding absorbed_finalize_rest [OF a] q r
    by (simp add: pr lB pk tk)
qed

lemma padWords_full_1:
  assumes l: "length ws = 134217728" and w0: "ws ! 0 = 0x80000000"
    and w14: "ws ! 14 = 0" and w15: "ws ! 15 = 0x01000000"
  shows "padWords ws 536870912 536870912 = ws"
proof -
  have i0: "ushr (536870912 * 8) 5 = 0" by (simp add: ushr_def)
  have i1: "ushr (536870912 * 8 + 64) 9 = 0" by (simp add: ushr_def)
  have s0: "js_set ws 0 (js_get ws 0 OR push_bit (24 - 536870912 * 8 mod 32) 0x80) = ws"
    using w0 by (simp add: js_set_def js_get_def l list_update_same_conv)
  have v15: "swapEndian (of_nat (536870912 * 8 div 0x100000000)) = 0x01000000"
    by (simp add: swapEndian_def)
  have v14: "swapEndian (of_nat (536870912 * 8)) = 0"
    by (simp add: swapEndian_def)
  have s15: "js_set ws 15 0x01000000 = ws"
    using w15 by (simp add: js_set_def l list_update_same_conv)
  have s14: "js_set ws 14 0 = ws"
    using w14 by (simp add: js_set_def l list_update_same_conv)
  show ?thesis
    unfolding padWords_def i0 i1 s0 v15 v14 by (simp add: s15 s14)
qed

lemma padWords_full_2:
  assumes l: "length ws = 134217744" and w0: "ws ! 16 = 0x80000000"
    and w14: "ws ! 30 = 0x00020000" and w15: "ws ! 31 = 0x01000000"
  shows "padWords ws 536870976 536870976 = ws"
proof -
  have i0: "ushr (536870976 * 8) 5 = 16" by (simp add: ushr_def)
  have i1: "ushr (536870976 * 8 + 64) 9 = 1" by (simp add: ushr_def)
  have s0: "js_set ws 16 (js_get ws 16 OR push_bit (24 - 536870976 * 8 mod 32) 0x80) = ws"
    using w0 by (simp add: js_set_def js_get_def l list_update_same_conv)
  have v15: "swapEndian (of_nat (536870976 * 8 div 0x100000000)) = 0x01000000"
    by (simp add: swapEndian_def)
  have v14: "swapEndian (of_nat (536870976 * 8)) = 0x00020000"
    by (simp add: swapEndian_def)
  have s15: "js_set ws 31 0x01000000 = ws"
    using w15 by (simp add: js_set_def l list_update_same_conv)
  have s14: "js_set ws 30 0x00020000 = ws"
    using w14 by (simp add: js_set_def l list_update_same_conv)
  show ?thesis
    unfolding padWords_def i0 i1 s0 v15 v14 by (simp add: s15 s14)
qed

lemma pad_length_1:
  "padWords [] 0 536870912 = [0x80000000, 0, 0, 0, 0, 0, 0, 0, 0, 0, 0, 0, 0, 0, 0, 0x01000000]"
  by (simp add: padWords_def ushr_def js_set_def js_get_def swapEndian_def replicate_numeral
      list_update_numeral)

lemma pad_length_2:
  "padWords [] 0 536870976 = [0x80000000, 0, 0, 0, 0, 0, 0, 0, 0, 0, 0, 0, 0, 0, 0x00020000, 0x01000000]"
  by (simp add: padWords_def ushr_def js_set_def js_get_def swapEndian_def replicate_numeral
      list_update_numeral)

section \<open>Evaluation of the transform on the test vectors\<close>













text \<open>
  The hash that the transform leaves unchanged on the length block of \<open>2 ^ 32\<close> bits,
  its successor on a block of zeros, and the transform of that on the length block of
  \<open>2 ^ 32 + 512\<close> bits.
\<close>

lemma computation_fixed:
  "computation (0x8baa5954, 0x0fb009a3, 0xc7478e5b, 0x33d799db)
     (\<lambda>k. swapEndian ([0x80000000, 0, 0, 0, 0, 0, 0, 0, 0, 0, 0, 0, 0, 0, 0, 0x01000000] ! k)) =
   (0, 0, 0, 0)"
  unfolding computation_def
  apply (rule let_eval, rule refl, simp only: split_conv)
  apply (rule let_eval, simp add: FF_def GG_def HH_def II_def T_def swapEndian_def rotl32)+
  apply simp
  done

lemma computation_next:
  "computation (0x8baa5954, 0x0fb009a3, 0xc7478e5b, 0x33d799db)
     (\<lambda>k. swapEndian ([0, 0, 0, 0, 0, 0, 0, 0, 0, 0, 0, 0, 0, 0, 0, 0] ! k)) =
   (0x8f3e5020, 0x01f1ff47, 0xf7ded417, 0x3c515981)"
  unfolding computation_def
  apply (rule let_eval, rule refl, simp only: split_conv)
  apply (rule let_eval, simp add: FF_def GG_def HH_def II_def T_def swapEndian_def rotl32)+
  apply simp
  done

lemma computation_last:
  "computation (0x1ae8a974, 0x11a208ea, 0xbf266272, 0x7028f35c)
     (\<lambda>k. swapEndian ([0x80000000, 0, 0, 0, 0, 0, 0, 0, 0, 0, 0, 0, 0, 0, 0x00020000, 0x01000000] ! k)) =
   (0xcde9cd75, 0x064aa3fa, 0x579faaf1, 0x84d45d8b)"
  unfolding computation_def
  apply (rule let_eval, rule refl, simp only: split_conv)
  apply (rule let_eval, simp add: FF_def GG_def HH_def II_def T_def swapEndian_def rotl32)+
  apply simp
  done

lemma compress_fixed:
  "compress [0x8baa5954, 0x0fb009a3, 0xc7478e5b, 0x33d799db] [0x80000000, 0, 0, 0, 0, 0, 0, 0, 0, 0, 0, 0, 0, 0, 0, 0x01000000] = [0x8baa5954, 0x0fb009a3, 0xc7478e5b, 0x33d799db]"
  by (subst compress_eq) (simp_all add: computation_fixed)

lemma compress_next:
  "compress [0x8baa5954, 0x0fb009a3, 0xc7478e5b, 0x33d799db] [0, 0, 0, 0, 0, 0, 0, 0, 0, 0, 0, 0, 0, 0, 0, 0] = [0x1ae8a974, 0x11a208ea, 0xbf266272, 0x7028f35c]"
  by (subst compress_eq) (simp_all add: computation_next)

lemma compress_last:
  "compress [0x1ae8a974, 0x11a208ea, 0xbf266272, 0x7028f35c] [0x80000000, 0, 0, 0, 0, 0, 0, 0, 0, 0, 0, 0, 0, 0, 0x00020000, 0x01000000] = [0xe8d276e9, 0x17ecace4, 0x16c60d63, 0xf4fd50e7]"
  by (subst compress_eq) (simp_all add: computation_last)

section \<open>The block transform\<close>

text \<open>
  C4 (as stated): \<open>doProcessBlock\<close> leaves the word array \<open>M\<close> it is given unchanged.
  It does not: the first loop of the function swaps the bytes of the 16 words of the block
  in place. On a block whose first word is 1 the array comes back different.
\<close>

theorem doProcessBlock_changes_M:
  "snd (doProcessBlock [0x67452301, 0xefcdab89, 0x98badcfe, 0x10325476]
          [1, 0, 0, 0, 0, 0, 0, 0, 0, 0, 0, 0, 0, 0, 0, 0] 0) \<noteq>
   [1, 0, 0, 0, 0, 0, 0, 0, 0, 0, 0, 0, 0, 0, 0, 0]"
proof
  assume "snd (doProcessBlock [0x67452301, 0xefcdab89, 0x98badcfe, 0x10325476]
          [1, 0, 0, 0, 0, 0, 0, 0, 0, 0, 0, 0, 0, 0, 0, 0] 0) =
     [1, 0, 0, 0, 0, 0, 0, 0, 0, 0, 0, 0, 0, 0, 0, 0]"
  then have "js_get (swapWords 16 0 [1, 0, 0, 0, 0, 0, 0, 0, 0, 0, 0, 0, 0, 0, 0, 0]) 0 =
     js_get [1, 0, 0, 0, 0, 0, 0, 0, 0, 0, 0, 0, 0, 0, 0, 0] 0"
    by (simp add: snd_doProcessBlock)
  then show False
    unfolding js_get_swapWords by (simp add: js_get_def swapEndian_def)
qed

text \<open>
  C4 (amended): called with at least 16 words from \<open>offset\<close> on, \<open>doProcessBlock\<close>
  returns the array with the 16 words of the block byte-swapped and every other word, and
  the length, as they were. The hash words are the only other thing it writes.
\<close>

theorem doProcessBlock_frame:
  assumes "offset + 16 \<le> length M"
  shows "snd (doProcessBlock H M offset) =
         take offset M @ map swapEndian (take 16 (drop offset M)) @ drop (offset + 16) M"
  using assms by (simp add: snd_doProcessBlock swapWords_block)

theorem doProcessBlock_frame_witness:
  "0 + 16 \<le> length (replicate 16 (1 :: 32 word)) \<and>
   snd (doProcessBlock [] (replicate 16 1) 0) =
     take 0 (replicate 16 1) @ map swapEndian (take 16 (drop 0 (replicate 16 1))) @
     drop (0 + 16) (replicate 16 1)"
  using doProcessBlock_frame [of 0 "replicate 16 1" "[]"] by simp

section \<open>The block buffer\<close>

text \<open>
  C10: with fewer significant bytes buffered than one block, and no blocks to hold back,
  \<open>process(false)\<close> returns the hasher as it was (data words, \<open>sigBytes\<close>,
  \<open>_nDataBytes\<close> and hash) and a WordArray of 0 bytes.
\<close>

theorem process_noop:
  assumes "sigBytes (data (buffer h)) < blockSize (buffer h) * 4"
    and "minBufferSize (buffer h) = 0"
  shows "snd (process False h) = h \<and> sigBytes (fst (process False h)) = 0"
  using assms by (simp add: process_def Let_def toInt32_def WordArray_new_def)

theorem process_noop_witness:
  "sigBytes (data (buffer (Hasher_new (BufferedBlockAlgorithm_new 16))))
     < blockSize (buffer (Hasher_new (BufferedBlockAlgorithm_new 16))) * 4 \<and>
   minBufferSize (buffer (Hasher_new (BufferedBlockAlgorithm_new 16))) = 0 \<and>
   snd (process False (Hasher_new (BufferedBlockAlgorithm_new 16)))
     = Hasher_new (BufferedBlockAlgorithm_new 16) \<and>
   sigBytes (fst (process False (Hasher_new (BufferedBlockAlgorithm_new 16)))) = 0"
  using process_noop [of "Hasher_new (BufferedBlockAlgorithm_new 16)"]
  by (simp add: Hasher_new_def reset_def buffer_reset_def BufferedBlockAlgorithm_new_def
      WordArray_new_def)

text \<open>
  C6 (as stated): for every buffer state, \<open>process(true)\<close> consumes every buffered
  byte. With \<open>blockSize = 0\<close> it consumes none: \<open>nWordsReady\<close> is NaN in the source
  (0 here), \<open>if (nWordsReady)\<close> skips the block, and the five buffered bytes stay.
\<close>

theorem process_flush_without_block:
  "snd (process True
      \<lparr>buffer = \<lparr>blockSize = 0, minBufferSize = 0,
                 data = \<lparr>words = [0x61626364, 0x65000000], sigBytes = 5\<rparr>, nDataBytes = 5\<rparr>,
       hash = doReset\<rparr>) =
     \<lparr>buffer = \<lparr>blockSize = 0, minBufferSize = 0,
                data = \<lparr>words = [0x61626364, 0x65000000], sigBytes = 5\<rparr>, nDataBytes = 5\<rparr>,
      hash = doReset\<rparr> \<and>
   sigBytes (data (buffer (snd (process True
      \<lparr>buffer = \<lparr>blockSize = 0, minBufferSize = 0,
                 data = \<lparr>words = [0x61626364, 0x65000000], sigBytes = 5\<rparr>, nDataBytes = 5\<rparr>,
       hash = doReset\<rparr>)))) = 5"
  by (simp add: process_def Let_def WordArray_new_def)

text \<open>
  C6 (amended): for a positive block size. \<open>process(false)\<close> takes
  \<open>kF = max((floor(sigBytes / blockSizeBytes) | 0) - minBufferSize, 0)\<close> whole blocks,
  never more bytes than are buffered; \<open>process(true)\<close> takes
  \<open>kT = ceil(sigBytes / blockSizeBytes)\<close> blocks, which cover every buffered byte, the
  last block short of one block size. Either call runs the block loop over those words,
  removes them from the front of the data and returns them: with a byte count of \<open>kF\<close>
  blocks, taken off \<open>sigBytes\<close>, without the flush; with the \<open>sigBytes\<close> of the
  call, and 0 left, with it.
\<close>

theorem process_consumes:
  assumes "0 < blockSize (buffer h)"
  shows "let b = buffer h; sig = sigBytes (data b); bs = blockSize b;
             kF = nat (max (toInt32 (sig div (bs * 4)) - int (minBufferSize b)) 0);
             kT = (sig + bs * 4 - 1) div (bs * 4);
             PF = processBlocks bs (kF * bs) 0 (words (hash h), words (data b));
             PT = processBlocks bs (kT * bs) 0 (words (hash h), words (data b))
         in kF * (bs * 4) \<le> sig \<and> sig \<le> kT * (bs * 4) \<and> kT * (bs * 4) < sig + bs * 4 \<and>
            process False h =
              (\<lparr>words = take (kF * bs) (snd PF), sigBytes = kF * (bs * 4)\<rparr>,
               \<lparr>buffer = b\<lparr>data := \<lparr>words = drop (kF * bs) (snd PF),
                                        sigBytes = sig - kF * (bs * 4)\<rparr>\<rparr>,
                hash = (hash h)\<lparr>words := fst PF\<rparr>\<rparr>) \<and>
            process True h =
              (\<lparr>words = take (kT * bs) (snd PT), sigBytes = sig\<rparr>,
               \<lparr>buffer = b\<lparr>data := \<lparr>words = drop (kT * bs) (snd PT), sigBytes = 0\<rparr>\<rparr>,
                hash = (hash h)\<lparr>words := fst PT\<rparr>\<rparr>)"
proof -
  define sig where "sig = sigBytes (data (buffer h))"
  define bsb where "bsb = blockSize (buffer h) * 4"
  define kF where "kF = nat (max (toInt32 (sig div bsb) - int (minBufferSize (buffer h))) 0)"
  define kT where "kT = (sig + bsb - 1) div bsb"
  have bsb: "0 < bsb" using assms by (simp add: bsb_def)
  have wF: "nWordsReady False (buffer h) = kF * blockSize (buffer h)"
    by (simp add: nWordsReady_def kF_def sig_def bsb_def)
  have wT: "nWordsReady True (buffer h) = kT * blockSize (buffer h)"
    by (simp add: nWordsReady_def kT_def sig_def bsb_def)
  have lF: "kF * bsb \<le> sig"
    using nWordsReady_False_le [of "buffer h"] by (simp add: wF sig_def bsb_def mult.assoc)
  have gT: "sig \<le> kT * bsb"
    using nWordsReady_True_ge [OF assms] by (simp add: wT sig_def bsb_def mult.assoc)
  have "kT * bsb \<le> sig + bsb - 1" by (simp add: kT_def)
  then have uT: "kT * bsb < sig + bsb" using bsb by linarith
  have mF: "min (kF * blockSize (buffer h) * 4) sig = kF * bsb"
    using lF by (simp add: bsb_def mult.assoc)
  have mT: "min (kT * blockSize (buffer h) * 4) sig = sig"
    using gT by (simp add: bsb_def mult.assoc)
  have pF: "process False h =
      (\<lparr>words = take (kF * blockSize (buffer h))
                 (snd (processBlocks (blockSize (buffer h)) (kF * blockSize (buffer h)) 0
                    (words (hash h), words (data (buffer h))))),
        sigBytes = kF * bsb\<rparr>,
       \<lparr>buffer = (buffer h)\<lparr>data :=
          \<lparr>words = drop (kF * blockSize (buffer h))
                 (snd (processBlocks (blockSize (buffer h)) (kF * blockSize (buffer h)) 0
                    (words (hash h), words (data (buffer h))))),
           sigBytes = sig - kF * bsb\<rparr>\<rparr>,
        hash = (hash h)\<lparr>words :=
           fst (processBlocks (blockSize (buffer h)) (kF * blockSize (buffer h)) 0
                    (words (hash h), words (data (buffer h))))\<rparr>\<rparr>)"
    by (simp add: process_unfold Let_def wF sig_def [symmetric] mF)
  have pT: "process True h =
      (\<lparr>words = take (kT * blockSize (buffer h))
                 (snd (processBlocks (blockSize (buffer h)) (kT * blockSize (buffer h)) 0
                    (words (hash h), words (data (buffer h))))),
        sigBytes = sig\<rparr>,
       \<lparr>buffer = (buffer h)\<lparr>data :=
          \<lparr>words = drop (kT * blockSize (buffer h))
                 (snd (processBlocks (blockSize (buffer h)) (kT * blockSize (buffer h)) 0
                    (words (hash h), words (data (buffer h))))),
           sigBytes = 0\<rparr>\<rparr>,
        hash = (hash h)\<lparr>words :=
           fst (processBlocks (blockSize (buffer h)) (kT * blockSize (buffer h)) 0
                    (words (hash h), words (data (buffer h))))\<rparr>\<rparr>)"
    by (simp add: process_unfold Let_def wT sig_def [symmetric] mT)
  show ?thesis
    unfolding Let_def sig_def [symmetric] bsb_def [symmetric] kF_def [symmetric] kT_def [symmetric]
    using lF gT uT pF pT by simp
qed

theorem process_consumes_witness:
  "0 < blockSize (buffer \<lparr>buffer = \<lparr>blockSize = 16, minBufferSize = 0,
          data = \<lparr>words = replicate 20 0, sigBytes = 80\<rparr>, nDataBytes = 80\<rparr>, hash = doReset\<rparr>) \<and>
   process False \<lparr>buffer = \<lparr>blockSize = 16, minBufferSize = 0,
          data = \<lparr>words = replicate 20 0, sigBytes = 80\<rparr>, nDataBytes = 80\<rparr>, hash = doReset\<rparr> =
     (\<lparr>words = take 16 (snd (processBlocks 16 16 0 (words doReset, replicate 20 0))), sigBytes = 64\<rparr>,
      \<lparr>buffer = \<lparr>blockSize = 16, minBufferSize = 0,
          data = \<lparr>words = drop 16 (snd (processBlocks 16 16 0 (words doReset, replicate 20 0))),
                  sigBytes = 16\<rparr>, nDataBytes = 80\<rparr>,
       hash = doReset\<lparr>words := fst (processBlocks 16 16 0 (words doReset, replicate 20 0))\<rparr>\<rparr>) \<and>
   process True \<lparr>buffer = \<lparr>blockSize = 16, minBufferSize = 0,
          data = \<lparr>words = replicate 20 0, sigBytes = 80\<rparr>, nDataBytes = 80\<rparr>, hash = doReset\<rparr> =
     (\<lparr>words = take 32 (snd (processBlocks 16 32 0 (words doReset, replicate 20 0))), sigBytes = 80\<rparr>,
      \<lparr>buffer = \<lparr>blockSize = 16, minBufferSize = 0,
          data = \<lparr>words = drop 32 (snd (processBlocks 16 32 0 (words doReset, replicate 20 0))),
                  sigBytes = 0\<rparr>, nDataBytes = 80\<rparr>,
       hash = doReset\<lparr>words := fst (processBlocks 16 32 0 (words doReset, replicate 20 0))\<rparr>\<rparr>)"
  using process_consumes [of "\<lparr>buffer = \<lparr>blockSize = 16, minBufferSize = 0,
          data = \<lparr>words = replicate 20 0, sigBytes = 80\<rparr>, nDataBytes = 80\<rparr>, hash = doReset\<rparr>"]
  by (simp add: Let_def toInt32_def)

section \<open>Reset\<close>

text \<open>
  C9: whatever calls of \<open>reset\<close>, \<open>update\<close> and \<open>finalize\<close> a hasher has been through,
  \<open>reset()\<close> followed by \<open>finalize(m)\<close> returns the digest that \<open>finalize(m)\<close>
  returns on a newly constructed hasher.
\<close>

theorem reset_then_finalize:
  "fst (finalize m (reset (fold perform ops (Hasher_new (BufferedBlockAlgorithm_new bs))))) =
   fst (finalize m (Hasher_new (BufferedBlockAlgorithm_new bs)))"
proof -
  have "reset (fold perform ops (Hasher_new (BufferedBlockAlgorithm_new bs))) =
        Hasher_new (BufferedBlockAlgorithm_new bs)"
    using fold_perform_config [of ops "Hasher_new (BufferedBlockAlgorithm_new bs)"]
    by (simp add: Hasher_new_def reset_def buffer_reset_def BufferedBlockAlgorithm_new_def)
  then show ?thesis by simp
qed

section \<open>Finalization\<close>

text \<open>
  C3 (as stated): \<open>doFinalize\<close> calls \<open>process\<close> with \<open>flush = true\<close>. It calls
  \<open>process(false, this)\<close> (line 148), and the two are not the same: on a new hasher the
  call with \<open>true\<close> would leave \<open>sigBytes = 0\<close> in the buffer, the source leaves 4.
\<close>

theorem doFinalize_differs_from_flush:
  "snd (doFinalize (Hasher_new (BufferedBlockAlgorithm_new 16))) \<noteq>
   snd (doFinalize_spec (Hasher_new (BufferedBlockAlgorithm_new 16)))"
proof
  assume "snd (doFinalize (Hasher_new (BufferedBlockAlgorithm_new 16))) =
          snd (doFinalize_spec (Hasher_new (BufferedBlockAlgorithm_new 16)))"
  then have "sigBytes (data (buffer (snd (doFinalize (Hasher_new (BufferedBlockAlgorithm_new 16)))))) =
     sigBytes (data (buffer (snd (doFinalize_spec (Hasher_new (BufferedBlockAlgorithm_new 16))))))"
    by simp
  moreover have "sigBytes (data (buffer (snd (doFinalize (Hasher_new (BufferedBlockAlgorithm_new 16)))))) = 4"
    by (subst doFinalize_eq) (simp_all add: fresh_hasher)
  moreover have "sigBytes (data (buffer (snd (doFinalize_spec (Hasher_new (BufferedBlockAlgorithm_new 16)))))) = 0"
    by (rule doFinalize_spec_sigBytes) (simp add: fresh_hasher)
  ultimately show False by simp
qed

text \<open>
  C3 (amended): \<open>doFinalize\<close> calls \<open>process\<close> with \<open>flush = false\<close>. On a hasher of
  block size 16 that holds nothing back, whose data words end with the word of the last
  significant byte and with fewer than \<open>2 ^ 29 - 8\<close> bytes buffered, the padding leaves a
  positive multiple of 16 words, and that call passes all of them through the block loop,
  returns them all as processed and leaves no word in the buffer (\<open>sigBytes\<close> stays at
  4); the digest is the hash after that loop, byte-swapped.
\<close>

theorem doFinalize_drains:
  assumes "blockSize (buffer h) = 16" and "minBufferSize (buffer h) = 0"
    and "length (words (data (buffer h))) \<le> sigBytes (data (buffer h)) div 4 + 1"
    and "sigBytes (data (buffer h)) * 8 + 64 < 2 ^ 32"
  shows "let p = addPadding h; W = words (data (buffer p));
             HM = processBlocks 16 (length W) 0 (words (hash h), W)
         in length W mod 16 = 0 \<and> 0 < length W \<and>
            process False p =
              (\<lparr>words = snd HM, sigBytes = 4 * length W\<rparr>,
               \<lparr>buffer = (buffer h)\<lparr>data := \<lparr>words = [], sigBytes = 4\<rparr>\<rparr>,
                hash = (hash h)\<lparr>words := fst HM\<rparr>\<rparr>) \<and>
            length (snd HM) = length W \<and>
            fst (doFinalize h) = (hash h)\<lparr>words := swapWords 4 0 (fst HM)\<rparr>"
proof -
  define PW where "PW = padWords (words (data (buffer h))) (sigBytes (data (buffer h))) (nDataBytes (buffer h))"
  define k where "k = (sigBytes (data (buffer h)) + 8) div 64 + 1"
  have len: "length PW = 16 * k"
    unfolding PW_def k_def using assms(3,4) by (rule length_padWords)
  have W: "words (data (buffer (addPadding h))) = PW" by (simp add: addPadding_eq PW_def)
  have pb: "processBlocks 16 (16 * k) 0 (words (hash h), PW) =
            (absorb k (words (hash h)) PW, map swapEndian PW)"
    using processBlocks_absorb [of 0 k PW "words (hash h)"] len by simp
  have "0 < k" by (simp add: k_def)
  then have "PW \<noteq> []" using len by auto
  then show ?thesis
    using process_addPadding [OF assms] doFinalize_eq [OF assms]
    by (simp add: Let_def W pb PW_def [symmetric] len)
qed

theorem doFinalize_drains_witness:
  "blockSize (buffer (Hasher_new (BufferedBlockAlgorithm_new 16))) = 16 \<and>
   minBufferSize (buffer (Hasher_new (BufferedBlockAlgorithm_new 16))) = 0 \<and>
   length (words (data (buffer (Hasher_new (BufferedBlockAlgorithm_new 16)))))
     \<le> sigBytes (data (buffer (Hasher_new (BufferedBlockAlgorithm_new 16)))) div 4 + 1 \<and>
   sigBytes (data (buffer (Hasher_new (BufferedBlockAlgorithm_new 16)))) * 8 + 64 < 2 ^ 32 \<and>
   (let p = addPadding (Hasher_new (BufferedBlockAlgorithm_new 16)); W = words (data (buffer p));
        HM = processBlocks 16 (length W) 0 (words (hash (Hasher_new (BufferedBlockAlgorithm_new 16))), W)
    in length W mod 16 = 0 \<and> 0 < length W \<and>
       process False p =
         (\<lparr>words = snd HM, sigBytes = 4 * length W\<rparr>,
          \<lparr>buffer = (buffer (Hasher_new (BufferedBlockAlgorithm_new 16)))\<lparr>data := \<lparr>words = [], sigBytes = 4\<rparr>\<rparr>,
           hash = (hash (Hasher_new (BufferedBlockAlgorithm_new 16)))\<lparr>words := fst HM\<rparr>\<rparr>) \<and>
       length (snd HM) = length W \<and>
       fst (doFinalize (Hasher_new (BufferedBlockAlgorithm_new 16))) =
         (hash (Hasher_new (BufferedBlockAlgorithm_new 16)))\<lparr>words := swapWords 4 0 (fst HM)\<rparr>)"
proof -
  have h: "blockSize (buffer (Hasher_new (BufferedBlockAlgorithm_new 16))) = 16"
    "minBufferSize (buffer (Hasher_new (BufferedBlockAlgorithm_new 16))) = 0"
    "length (words (data (buffer (Hasher_new (BufferedBlockAlgorithm_new 16)))))
       \<le> sigBytes (data (buffer (Hasher_new (BufferedBlockAlgorithm_new 16)))) div 4 + 1"
    "sigBytes (data (buffer (Hasher_new (BufferedBlockAlgorithm_new 16)))) * 8 + 64 < 2 ^ 32"
    by (simp_all add: fresh_hasher)
  from h doFinalize_drains [OF h] show ?thesis by blast
qed

section \<open>The invariant of the data sequence\<close>

text \<open>
  C5 (as stated): \<open>sigBytes \<le> 4 * word count\<close> holds for the buffer's data after every
  operation, \<open>finalize\<close> included. After \<open>finalize()\<close> on a new hasher the buffer has
  no words and \<open>sigBytes = 4\<close>: \<open>doFinalize\<close> sets \<open>sigBytes\<close> to
  \<open>(dataWords.length + 1) * 4\<close> and \<open>process\<close> then takes off 4 bytes for each word.
\<close>

theorem finalize_breaks_sigBytesInv:
  "\<not> sigBytesInv (data (buffer (snd (finalize None (Hasher_new (BufferedBlockAlgorithm_new 16))))))"
  by (simp add: finalize_def finalUpdate_def truthy_def)
     (subst doFinalize_eq, simp_all add: fresh_hasher sigBytesInv_def)

text \<open>
  C5 (amended): the invariant holds after \<open>reset\<close> and after every \<open>append\<close>, and
  \<open>process\<close> (with either flag) preserves it; so it holds after every \<open>update\<close>.
\<close>

theorem sigBytesInv_preserved:
  "sigBytesInv (data (buffer (reset h))) \<and>
   sigBytesInv (data (append_data m b)) \<and>
   (sigBytesInv (data (buffer h)) \<longrightarrow> sigBytesInv (data (buffer (snd (process f h))))) \<and>
   sigBytesInv (data (buffer (update m h)))"
proof -
  have "sigBytesInv (data (buffer (reset h)))"
    by (simp add: reset_def buffer_reset_def WordArray_new_def sigBytesInv_def)
  moreover have a: "sigBytesInv (data (append_data m' b'))" for m' b'
    by (simp add: append_data_def Let_def sigBytesInv_concat_wa)
  moreover have "sigBytesInv (data (buffer (update m h)))"
    unfolding update_def by (rule sigBytesInv_process) (simp add: a)
  ultimately show ?thesis by (simp add: sigBytesInv_process)
qed

theorem sigBytesInv_preserved_witness:
  "sigBytesInv (data (buffer (Hasher_new (BufferedBlockAlgorithm_new 16)))) \<and>
   sigBytesInv (data (buffer (snd (process True (Hasher_new (BufferedBlockAlgorithm_new 16))))))"
proof -
  have "sigBytesInv (data (buffer (Hasher_new (BufferedBlockAlgorithm_new 16))))"
    by (simp add: fresh_hasher sigBytesInv_def)
  with sigBytesInv_preserved [where h = "Hasher_new (BufferedBlockAlgorithm_new 16)" and f = True]
  show ?thesis by blast
qed



section \<open>Test vectors\<close>


section \<open>Incremental equivalence\<close>

text \<open>
  C2: \<open>finalize(m)\<close> against \<open>update(m); update(''); finalize()\<close> on a new hasher,
  for two WordArrays: \<open>2 ^ 29\<close> bytes (134217728 words), and the same followed by 64
  zero bytes. With \<open>2 ^ 29\<close> bytes and more in the buffer, \<open>nBitsLeft >>> 5\<close> and
  \<open>(nBitsLeft + 64) >>> 9\<close> have wrapped: the one call writes the \<open>0x80\<close> byte and the
  length words into the first blocks of the message, where these two messages hold them
  already, appends nothing, and returns the hash after the blocks of the message. The
  calls through \<open>update\<close> return the hash after one more block, the padding with the
  length. If both gave the same digest for the first message, the hash after its blocks
  would be the one hash that the length block of \<open>2 ^ 32\<close> bits leaves unchanged; the
  hash after the second message is then its transform on a block of zeros, which the
  length block of \<open>2 ^ 32 + 512\<close> bits does not leave unchanged. So the two ways of
  hashing differ on the first message or on the second.
\<close>

theorem one_call_differs:
  "\<not> (fst (finalize (Some (WA \<lparr>words = lengthWords 134217696, sigBytes = 536870912\<rparr>))
             (Hasher_new (BufferedBlockAlgorithm_new 16))) =
        fst (finalize None (update (Str [])
             (update (WA \<lparr>words = lengthWords 134217696, sigBytes = 536870912\<rparr>)
                (Hasher_new (BufferedBlockAlgorithm_new 16))))) \<and>
        fst (finalize (Some (WA \<lparr>words = lengthWords 134217712, sigBytes = 536870976\<rparr>))
             (Hasher_new (BufferedBlockAlgorithm_new 16))) =
        fst (finalize None (update (Str [])
             (update (WA \<lparr>words = lengthWords 134217712, sigBytes = 536870976\<rparr>)
                (Hasher_new (BufferedBlockAlgorithm_new 16))))))"
proof
  let ?H0 = "[0x67452301, 0xefcdab89, 0x98badcfe, 0x10325476] :: 32 word list"
  let ?h0 = "Hasher_new (BufferedBlockAlgorithm_new 16)"
  let ?P1 = "[0x80000000, 0, 0, 0, 0, 0, 0, 0, 0, 0, 0, 0, 0, 0, 0, 0x01000000] :: 32 word list"
  let ?P2 = "[0x80000000, 0, 0, 0, 0, 0, 0, 0, 0, 0, 0, 0, 0, 0, 0x00020000, 0x01000000] :: 32 word list"
  let ?E = "[0, 0, 0, 0, 0, 0, 0, 0, 0, 0, 0, 0, 0, 0, 0, 0] :: 32 word list"
  define D1 where "D1 = lengthWords 134217696"
  define D2 where "D2 = lengthWords 134217712"
  define X1 where "X1 = absorb 8388608 ?H0 D1"
  define X2 where "X2 = absorb 8388609 ?H0 D2"
  assume "fst (finalize (Some (WA \<lparr>words = lengthWords 134217696, sigBytes = 536870912\<rparr>)) ?h0) =
        fst (finalize None (update (Str [])
             (update (WA \<lparr>words = lengthWords 134217696, sigBytes = 536870912\<rparr>) ?h0))) \<and>
        fst (finalize (Some (WA \<lparr>words = lengthWords 134217712, sigBytes = 536870976\<rparr>)) ?h0) =
        fst (finalize None (update (Str [])
             (update (WA \<lparr>words = lengthWords 134217712, sigBytes = 536870976\<rparr>) ?h0)))"
  then have A1: "fst (finalize (Some (WA \<lparr>words = D1, sigBytes = 536870912\<rparr>)) ?h0) =
        fst (finalize None (update (Str []) (update (WA \<lparr>words = D1, sigBytes = 536870912\<rparr>) ?h0)))"
    and A2: "fst (finalize (Some (WA \<lparr>words = D2, sigBytes = 536870976\<rparr>)) ?h0) =
        fst (finalize None (update (Str []) (update (WA \<lparr>words = D2, sigBytes = 536870976\<rparr>) ?h0)))"
    by (simp_all add: D1_def D2_def)
  have l1: "length D1 = 16 * 8388608" and l2: "length D2 = 16 * 8388609"
    by (simp_all add: D1_def D2_def lengthWords_def)
  have p1: "padWords D1 536870912 536870912 = D1"
    by (rule padWords_full_1) (simp_all add: D1_def lengthWords_def)
  have p2: "padWords D2 536870976 536870976 = D2"
    by (rule padWords_full_2) (simp_all add: D2_def lengthWords_def)
  have os1: "fst (finalize (Some (WA \<lparr>words = D1, sigBytes = 536870912\<rparr>)) ?h0) =
             \<lparr>words = swapWords 4 0 X1, sigBytes = 16\<rparr>"
    using finalize_WA_full [of D1 8388608] l1 p1 by (simp add: X1_def)
  have os2: "fst (finalize (Some (WA \<lparr>words = D2, sigBytes = 536870976\<rparr>)) ?h0) =
             \<lparr>words = swapWords 4 0 X2, sigBytes = 16\<rparr>"
    using finalize_WA_full [of D2 8388609] l2 p2 by (simp add: X2_def)
  have in1: "fst (finalize None (update (Str []) (update (WA \<lparr>words = D1, sigBytes = 536870912\<rparr>) ?h0))) =
             \<lparr>words = swapWords 4 0 (compress X1 ?P1), sigBytes = 16\<rparr>"
    using update_finalize_WA_full [of D1 8388608] l1 by (simp add: X1_def pad_length_1)
  have in2: "fst (finalize None (update (Str []) (update (WA \<lparr>words = D2, sigBytes = 536870976\<rparr>) ?h0))) =
             \<lparr>words = swapWords 4 0 (compress X2 ?P2), sigBytes = 16\<rparr>"
    using update_finalize_WA_full [of D2 8388609] l2 by (simp add: X2_def pad_length_2)
  have lX1: "length X1 = 4" and lX2: "length X2 = 4"
    by (simp_all add: X1_def X2_def length_absorb)
  have "swapWords 4 0 X1 = swapWords 4 0 (compress X1 ?P1)"
    using A1 unfolding os1 in1 by simp
  then have f1: "compress X1 ?P1 = X1"
    using swapWords_inj [of X1 "compress X1 ?P1" 4 0] by (simp add: lX1 length_compress)
  have "swapWords 4 0 X2 = swapWords 4 0 (compress X2 ?P2)"
    using A2 unfolding os2 in2 by simp
  then have f2: "compress X2 ?P2 = X2"
    using swapWords_inj [of X2 "compress X2 ?P2" 4 0] by (simp add: lX2 length_compress)
  have x1: "X1 = [0x8baa5954, 0x0fb009a3, 0xc7478e5b, 0x33d799db]"
    by (rule compress_fixed_unique [OF _ compress_fixed lX1 f1]) simp
  have r16: "replicate 16 (0 :: 32 word) = ?E" by (simp add: replicate_numeral)
  have "replicate 134217712 (0 :: 32 word) = replicate 134217696 0 @ replicate 16 0"
    using replicate_add [of 134217696 16 "0 :: 32 word"] by simp
  then have d2: "D2 = D1 @ ?E" by (simp add: D1_def D2_def lengthWords_def r16)
  have "absorb (8388608 + 1) ?H0 (D1 @ ?E) = absorb 1 (absorb 8388608 ?H0 D1) ?E"
    using l1 by (rule absorb_append)
  then have x2: "X2 = compress X1 ?E"
    by (simp add: X2_def X1_def d2)
  have "X2 = [0x1ae8a974, 0x11a208ea, 0xbf266272, 0x7028f35c]"
    unfolding x2 x1 by (rule compress_next)
  with f2 compress_last show False by simp
qed
end
